theory Spec2Isabelle
  imports Main "HOL-Library.Word" "HOL-Library.Log_Nat"
begin

unbundle bit_operations_syntax

section \<open>Sequencer image cache\<close>

text \<open>
  A shallow embedding of the sequencer image cache (\<^verbatim>\<open>namespace blender::seq\<close>,
  the file with \<^verbatim>\<open>struct SeqCache\<close>): cache keys with their hash and comparison
  functions, the linked chains of keys, insertion, recycling, invalidation and iteration.
  Pointers are addresses (\<open>nat\<close>), \<^verbatim>\<open>nullptr\<close> is \<open>None\<close>; a \<^verbatim>\<open>float\<close> is its
  IEEE-754 binary32 bit pattern; reading through a null or freed pointer is an error value.
\<close>

subsection \<open>Errors\<close>

datatype error = NullDeref | UseAfterFree | FloatToIntUB | AssertFailed

definition bind_err :: "error + 'a \<Rightarrow> ('a \<Rightarrow> error + 'b) \<Rightarrow> error + 'b" where
  "bind_err m f = (case m of Inl e \<Rightarrow> Inl e | Inr x \<Rightarrow> f x)"

subsection \<open>The C++ \<^verbatim>\<open>float\<close>: IEEE-754 binary32\<close>

type_synonym float32 = "32 word"

definition f32_sign :: "float32 \<Rightarrow> bool" where
  "f32_sign w = bit w 31"

definition f32_exponent :: "float32 \<Rightarrow> nat" where
  "f32_exponent w = unat (take_bit 8 (drop_bit 23 w))"

definition f32_fraction :: "float32 \<Rightarrow> nat" where
  "f32_fraction w = unat (take_bit 23 w)"

definition f32_is_nan :: "float32 \<Rightarrow> bool" where
  "f32_is_nan w = (f32_exponent w = 255 \<and> f32_fraction w \<noteq> 0)"

definition f32_is_inf :: "float32 \<Rightarrow> bool" where
  "f32_is_inf w = (f32_exponent w = 255 \<and> f32_fraction w = 0)"

definition f32_is_zero :: "float32 \<Rightarrow> bool" where
  "f32_is_zero w = (f32_exponent w = 0 \<and> f32_fraction w = 0)"

text \<open>The magnitude of a finite value, counted in units of \<open>2\<^sup>-\<^sup>1\<^sup>4\<^sup>9\<close> (the smallest
  subnormal): every finite binary32 value is a whole number of them.\<close>

definition f32_magnitude :: "float32 \<Rightarrow> nat" where
  "f32_magnitude w =
     (if f32_exponent w = 0 then f32_fraction w
      else (2 ^ 23 + f32_fraction w) * 2 ^ (f32_exponent w - 1))"

definition f32_units :: "float32 \<Rightarrow> int" where
  "f32_units w = (if f32_sign w then - int (f32_magnitude w) else int (f32_magnitude w))"

definition f32_pack :: "bool \<Rightarrow> nat \<Rightarrow> nat \<Rightarrow> float32" where
  "f32_pack s e f = (if s then 0x80000000 else 0) + push_bit 23 (word_of_nat e) + word_of_nat f"

definition f32_inf :: "bool \<Rightarrow> float32" where
  "f32_inf s = f32_pack s 255 0"

definition f32_qnan :: float32 where
  "f32_qnan = 0x7FC00000"

text \<open>\<open>n / 2\<^sup>k\<close> rounded to the nearest whole number, ties to even.\<close>

definition rne_shift :: "nat \<Rightarrow> nat \<Rightarrow> nat" where
  "rne_shift n k =
     (let q = n div 2 ^ k; r = n mod 2 ^ k
      in if 2 * r > 2 ^ k \<or> (2 * r = 2 ^ k \<and> odd q) then q + 1 else q)"

text \<open>The binary32 value nearest to \<open>n * 2\<^sup>-\<^sup>(\<^sup>1\<^sup>4\<^sup>9\<^sup>+\<^sup>u\<^sup>)\<close> with sign \<open>s\<close> (round to nearest,
  ties to even, overflow to infinity).\<close>

definition f32_round :: "bool \<Rightarrow> nat \<Rightarrow> nat \<Rightarrow> float32" where
  "f32_round s n u =
     (let k = max u (floorlog 2 n - 24); q = rne_shift n k; j = k - u
      in if q < 2 ^ 23 then f32_pack s 0 q
         else if q = 2 ^ 24 then (if j + 2 \<ge> 255 then f32_inf s else f32_pack s (j + 2) 0)
         else if j + 1 \<ge> 255 then f32_inf s else f32_pack s (j + 1) (q - 2 ^ 23))"

definition f32_add :: "float32 \<Rightarrow> float32 \<Rightarrow> float32" where
  "f32_add a b =
     (if f32_is_nan a \<or> f32_is_nan b then f32_qnan
      else if f32_is_inf a then (if f32_is_inf b \<and> f32_sign a \<noteq> f32_sign b then f32_qnan else a)
      else if f32_is_inf b then b
      else let s = f32_units a + f32_units b
           in if s = 0 then f32_pack (f32_sign a \<and> f32_sign b) 0 0
              else f32_round (s < 0) (nat \<bar>s\<bar>) 0)"

definition f32_neg :: "float32 \<Rightarrow> float32" where
  "f32_neg a = a XOR 0x80000000"

definition f32_sub :: "float32 \<Rightarrow> float32 \<Rightarrow> float32" where
  "f32_sub a b = f32_add a (f32_neg b)"

definition f32_mul :: "float32 \<Rightarrow> float32 \<Rightarrow> float32" where
  "f32_mul a b =
     (if f32_is_nan a \<or> f32_is_nan b then f32_qnan
      else if f32_is_inf a \<or> f32_is_inf b
        then (if f32_is_zero a \<or> f32_is_zero b then f32_qnan else f32_inf (f32_sign a \<noteq> f32_sign b))
      else f32_round (f32_sign a \<noteq> f32_sign b) (f32_magnitude a * f32_magnitude b) 149)"

text \<open>The comparison \<^verbatim>\<open>a != b\<close>: a NaN differs from everything, the two zeros are equal.\<close>

definition f32_ne :: "float32 \<Rightarrow> float32 \<Rightarrow> bool" where
  "f32_ne a b = (f32_is_nan a \<or> f32_is_nan b \<or> (a \<noteq> b \<and> \<not> (f32_is_zero a \<and> f32_is_zero b)))"

text \<open>The conversion \<^verbatim>\<open>int(x)\<close> truncates towards zero; it is undefined when the
  truncated value is no \<^verbatim>\<open>int\<close> (NaN, infinity, out of range).\<close>

definition f32_to_int :: "float32 \<Rightarrow> error + int" where
  "f32_to_int a =
     (if f32_exponent a = 255 then Inl FloatToIntUB
      else let t = int (f32_magnitude a div 2 ^ 149); v = (if f32_sign a then - t else t)
           in if - (2 ^ 31) \<le> v \<and> v < 2 ^ 31 then Inr v else Inl FloatToIntUB)"

subsection \<open>Flags\<close>

text \<open>
  Modelled from the spec: the header declaring the cache flags and strip types is not
  among the sources. The stages are "bitmask-capable" (Raw, Preprocessed, Composite,
  FinalOutput); the values are those of the \<^verbatim>\<open>SEQ_CACHE_*\<close> enumeration, one bit each.
\<close>

definition SEQ_CACHE_STORE_RAW :: "32 word" where "SEQ_CACHE_STORE_RAW = 1"
definition SEQ_CACHE_STORE_PREPROCESSED :: "32 word" where "SEQ_CACHE_STORE_PREPROCESSED = 2"
definition SEQ_CACHE_STORE_COMPOSITE :: "32 word" where "SEQ_CACHE_STORE_COMPOSITE = 4"
definition SEQ_CACHE_STORE_FINAL_OUT :: "32 word" where "SEQ_CACHE_STORE_FINAL_OUT = 8"
definition SEQ_CACHE_OVERRIDE :: "32 word" where "SEQ_CACHE_OVERRIDE = 16"
definition SEQ_CACHE_PREFETCH_ENABLE :: "32 word" where "SEQ_CACHE_PREFETCH_ENABLE = 1024"
definition STRIP_TYPE_EFFECT :: "32 word" where "STRIP_TYPE_EFFECT = 8"

subsection \<open>Data\<close>

type_synonym addr = nat

text \<open>\<^verbatim>\<open>RenderData\<close>: the fields the cache reads. \<open>bmain\<close> and \<open>scene\<close> are pointers.\<close>

record RenderData =
  bmain :: addr
  scene :: addr
  rectx :: "32 word"
  recty :: "32 word"
  preview_render_size :: "32 word"
  motion_blur_shutter :: float32
  motion_blur_samples :: "32 word"
  view_id :: "32 word"
  skip_cache :: bool
  is_proxy_render :: bool
  is_prefetch_render :: bool
  for_render :: bool
  task_id :: "32 word"

text \<open>\<^verbatim>\<open>SeqCacheKey\<close>. The field \<^verbatim>\<open>context\<close> is \<open>context'\<close> here, \<^verbatim>\<open>task_id\<close> is
  \<open>key_task_id\<close>; \<^verbatim>\<open>cache_owner\<close> is left out (one cache per scene).\<close>

record SeqCacheKey =
  strip :: addr
  context' :: RenderData
  frame_index :: float32
  type :: "32 word"
  link_prev :: "addr option"
  link_next :: "addr option"
  is_temp_cache :: bool
  key_task_id :: "32 word"

record SeqCacheItem =
  ibuf :: "addr option"

text \<open>
  \<^verbatim>\<open>SeqCache\<close>. The hash table owns the keys: an entry is the address of the key
  (from \<^verbatim>\<open>keys_pool\<close>), the key stored there and its item, in the order of iteration.
  A key is live exactly while its entry is in the table (\<^verbatim>\<open>seq_cache_keyfree\<close> returns
  it to the pool on removal).
\<close>

record SeqCache =
  hash :: "(addr \<times> SeqCacheKey \<times> SeqCacheItem) list"
  last_key :: "addr option"

text \<open>
  Modelled from the spec: the strip "exposes stable identity, current left/right timeline
  handle extents, a per-strip cache-override flag set"; \<open>start\<close> is what
  \<^verbatim>\<open>time_start_frame_get\<close> returns, \<open>left_handle\<close> and \<open>right_handle\<close> what
  \<^verbatim>\<open>time_left_handle_frame_get\<close> and \<^verbatim>\<open>time_right_handle_frame_get\<close> return.
\<close>

record Strip =
  strip_type :: "32 word"
  cache_flag :: "32 word"
  start :: float32
  left_handle :: int
  right_handle :: int

text \<open>
  The scene with the memory reachable from it: \<^verbatim>\<open>scene->ed->cache\<close>,
  \<^verbatim>\<open>scene->ed->cache_flag\<close>, \<^verbatim>\<open>scene->r.cfra\<close>, the strips by address, and the
  reference counter of every image buffer (\<open>None\<close>: freed).
\<close>

record Scene =
  ed_cache :: "SeqCache option"
  ed_cache_flag :: "32 word"
  r_cfra :: int
  strips :: "addr \<Rightarrow> Strip"
  ibufs :: "addr \<Rightarrow> nat option"

text \<open>
  The collaborators, whose code is not part of the cache: the media-relative frame mapping
  \<^verbatim>\<open>give_frame_index\<close>, the prefetch job, the disk cache, the memory statistics
  (\<^verbatim>\<open>MEM_get_memory_in_use\<close>, read against \<^verbatim>\<open>U.memcachelimit\<close>),
  \<^verbatim>\<open>scene->r.views_format\<close> read through a scene pointer, and the number of buckets
  that the hash table \<^verbatim>\<open>BLI_ghash\<close> has when it holds \<open>n\<close> entries (\<open>ghash_nbuckets\<close>).
\<close>

record Collab =
  give_frame_index :: "Scene \<Rightarrow> Strip \<Rightarrow> float32 \<Rightarrow> float32"
  seq_prefetch_job_is_running :: bool
  seq_prefetch_get_time_range :: "int \<times> int"
  seq_prefetch_original_context_get :: "RenderData \<Rightarrow> RenderData"
  seq_prefetch_original_strip_get :: "addr option \<Rightarrow> addr option"
  seq_disk_cache_is_enabled :: bool
  seq_disk_cache_read_file :: "SeqCacheKey \<Rightarrow> addr option"
  memcachelimit :: nat
  MEM_get_memory_in_use :: "Scene \<Rightarrow> nat"
  views_format :: "addr \<Rightarrow> 32 word"
  ghash_nbuckets :: "nat \<Rightarrow> nat"

subsection \<open>Keys: comparison and hash\<close>

text \<open>Both comparison functions return \<open>True\<close> when the arguments differ.\<close>

definition seq_cmp_render_data :: "Collab \<Rightarrow> RenderData \<Rightarrow> RenderData \<Rightarrow> bool" where
  "seq_cmp_render_data co a b =
     (preview_render_size a \<noteq> preview_render_size b \<or> rectx a \<noteq> rectx b \<or>
      recty a \<noteq> recty b \<or> bmain a \<noteq> bmain b \<or> scene a \<noteq> scene b \<or>
      f32_ne (motion_blur_shutter a) (motion_blur_shutter b) \<or>
      motion_blur_samples a \<noteq> motion_blur_samples b \<or>
      views_format co (scene a) \<noteq> views_format co (scene b) \<or> view_id a \<noteq> view_id b)"

text \<open>A pointer cast to \<^verbatim>\<open>intptr_t\<close>, shifted, and cut to the 32 bits of \<^verbatim>\<open>uint\<close>.\<close>

definition ptr_shl6 :: "addr \<Rightarrow> 32 word" where
  "ptr_shl6 p = ucast (push_bit 6 (word_of_nat p :: 64 word))"

definition seq_hash_render_data :: "Collab \<Rightarrow> RenderData \<Rightarrow> error + 32 word" where
  "seq_hash_render_data co a =
     (let rval = rectx a + recty a;
          rval = rval XOR preview_render_size a;
          rval = rval XOR ptr_shl6 (bmain a);
          rval = rval XOR ptr_shl6 (scene a)
      in case f32_to_int (f32_mul (motion_blur_shutter a) 0x42C80000) of
           Inl e \<Rightarrow> Inl e
         | Inr shutter \<Rightarrow>
             (let rval = rval XOR push_bit 10 (word_of_int shutter);
                  rval = rval XOR push_bit 16 (motion_blur_samples a);
                  rval = rval XOR push_bit 24 (views_format co (scene a) * 2 + view_id a)
              in Inr rval))"

definition seq_cache_hashhash :: "Collab \<Rightarrow> SeqCacheKey \<Rightarrow> error + 32 word" where
  "seq_cache_hashhash co key =
     (case seq_hash_render_data co (context' key) of
        Inl e \<Rightarrow> Inl e
      | Inr rval \<Rightarrow>
          (let rval = rval XOR frame_index key;
               rval = rval + type key;
               rval = rval XOR ptr_shl6 (strip key)
           in Inr rval))"

definition seq_cache_hashcmp :: "Collab \<Rightarrow> SeqCacheKey \<Rightarrow> SeqCacheKey \<Rightarrow> bool" where
  "seq_cache_hashcmp co a b =
     (strip a \<noteq> strip b \<or> f32_ne (frame_index a) (frame_index b) \<or> type a \<noteq> type b \<or>
      seq_cmp_render_data co (context' a) (context' b))"

subsection \<open>Frames\<close>

definition time_start_frame_get :: "Scene \<Rightarrow> addr \<Rightarrow> float32" where
  "time_start_frame_get sc s = start (strips sc s)"

definition seq_cache_timeline_frame_to_frame_index ::
  "Collab \<Rightarrow> Scene \<Rightarrow> addr \<Rightarrow> float32 \<Rightarrow> 32 word \<Rightarrow> float32" where
  "seq_cache_timeline_frame_to_frame_index co sc s timeline_frame ty =
     (let is_effect = (strip_type (strips sc s) AND STRIP_TYPE_EFFECT \<noteq> 0)
      in if \<not> is_effect \<and> ty = SEQ_CACHE_STORE_RAW
         then give_frame_index co sc (strips sc s) timeline_frame
         else f32_sub timeline_frame (time_start_frame_get sc s))"

definition seq_cache_key_timeline_frame_get :: "Scene \<Rightarrow> SeqCacheKey \<Rightarrow> error + int" where
  "seq_cache_key_timeline_frame_get sc key =
     f32_to_int (f32_add (frame_index key) (time_start_frame_get sc (strip key)))"

subsection \<open>Reading and writing keys through pointers\<close>

fun key_lookup :: "(addr \<times> SeqCacheKey \<times> SeqCacheItem) list \<Rightarrow> addr \<Rightarrow> SeqCacheKey option" where
  "key_lookup [] a = None"
| "key_lookup ((a', k, i) # es) a = (if a' = a then Some k else key_lookup es a)"

definition key_deref :: "SeqCache \<Rightarrow> addr option \<Rightarrow> error + SeqCacheKey" where
  "key_deref c p =
     (case p of
        None \<Rightarrow> Inl NullDeref
      | Some a \<Rightarrow> (case key_lookup (hash c) a of None \<Rightarrow> Inl UseAfterFree | Some k \<Rightarrow> Inr k))"

definition key_update :: "SeqCache \<Rightarrow> addr \<Rightarrow> (SeqCacheKey \<Rightarrow> SeqCacheKey) \<Rightarrow> SeqCache" where
  "key_update c a f =
     c\<lparr>hash := map (\<lambda>(a', k, i). if a' = a then (a', f k, i) else (a', k, i)) (hash c)\<rparr>"

definition seq_cache_get_from_scene :: "Scene \<Rightarrow> SeqCache option" where
  "seq_cache_get_from_scene sc = ed_cache sc"

subsection \<open>The hash table and the image buffers\<close>

text \<open>
  Modelled from the spec: \<^verbatim>\<open>BLI_ghash\<close> is not among the sources. The table is
  created with the hash function \<open>seq_cache_hashhash\<close> and the comparison
  \<open>seq_cache_hashcmp\<close> (\<^verbatim>\<open>BLI_ghash_new(seq_cache_hashhash, seq_cache_hashcmp, ...)\<close>):
  a lookup searches the bucket of the key's hash, which is the hash modulo the number of
  buckets, for an entry whose key \<open>seq_cache_hashcmp\<close> finds equal (it is \<open>False\<close> on
  equal keys). So a key is found under an equal key only if the two hashes fall into the
  same bucket. A key whose hash is not defined (the conversion to \<^verbatim>\<open>int\<close> in
  \<open>seq_hash_render_data\<close>) is given a bucket of its own kind, so that it is still found
  under itself. An insertion adds an entry whether or not an equal key is present (the
  source guards it by an assertion only); a removal frees the stored key and item of the
  entry found.
\<close>

type_synonym entry = "addr \<times> SeqCacheKey \<times> SeqCacheItem"

definition ghash_bucket_index :: "Collab \<Rightarrow> nat \<Rightarrow> SeqCacheKey \<Rightarrow> error + nat" where
  "ghash_bucket_index co n key =
     (case seq_cache_hashhash co key of
        Inl e \<Rightarrow> Inl e
      | Inr h \<Rightarrow> Inr (unat h mod ghash_nbuckets co n))"

text \<open>The entry \<open>e\<close> is in the bucket of \<open>key\<close>, in a table of \<open>n\<close> entries, and its key is
  equal to \<open>key\<close>.\<close>

definition ghash_match :: "Collab \<Rightarrow> nat \<Rightarrow> SeqCacheKey \<Rightarrow> entry \<Rightarrow> bool" where
  "ghash_match co n key e =
     (ghash_bucket_index co n (fst (snd e)) = ghash_bucket_index co n key \<and>
      \<not> seq_cache_hashcmp co key (fst (snd e)))"

fun bucket_lookup :: "Collab \<Rightarrow> nat \<Rightarrow> entry list \<Rightarrow> SeqCacheKey \<Rightarrow> entry option" where
  "bucket_lookup co n [] key = None"
| "bucket_lookup co n (e # es) key =
     (if ghash_match co n key e then Some e else bucket_lookup co n es key)"

fun bucket_remove :: "Collab \<Rightarrow> nat \<Rightarrow> entry list \<Rightarrow> SeqCacheKey \<Rightarrow> entry list" where
  "bucket_remove co n [] key = []"
| "bucket_remove co n (e # es) key =
     (if ghash_match co n key e then es else e # bucket_remove co n es key)"

definition ghash_lookup_entry :: "Collab \<Rightarrow> entry list \<Rightarrow> SeqCacheKey \<Rightarrow> entry option" where
  "ghash_lookup_entry co es key = bucket_lookup co (length es) es key"

definition ghash_remove_entry :: "Collab \<Rightarrow> entry list \<Rightarrow> SeqCacheKey \<Rightarrow> entry list" where
  "ghash_remove_entry co es key = bucket_remove co (length es) es key"

definition BLI_ghash_haskey :: "Collab \<Rightarrow> SeqCache \<Rightarrow> SeqCacheKey \<Rightarrow> bool" where
  "BLI_ghash_haskey co c key = (ghash_lookup_entry co (hash c) key \<noteq> None)"

definition BLI_ghash_lookup :: "Collab \<Rightarrow> SeqCache \<Rightarrow> SeqCacheKey \<Rightarrow> SeqCacheItem option" where
  "BLI_ghash_lookup co c key = map_option (\<lambda>e. snd (snd e)) (ghash_lookup_entry co (hash c) key)"

definition BLI_ghash_insert :: "SeqCache \<Rightarrow> addr \<Rightarrow> SeqCacheKey \<Rightarrow> SeqCacheItem \<Rightarrow> SeqCache" where
  "BLI_ghash_insert c a key item = c\<lparr>hash := hash c @ [(a, key, item)]\<rparr>"

text \<open>
  Modelled from the spec: the image buffer is "reference-counted; the cache holds one
  reference; callers that fetch get an additional reference they must release".
  \<^verbatim>\<open>IMB_refImBuf\<close> adds a reference; \<^verbatim>\<open>IMB_freeImBuf\<close> drops one, and frees the buffer
  when none is left.
\<close>

definition IMB_refImBuf :: "Scene \<Rightarrow> addr \<Rightarrow> Scene" where
  "IMB_refImBuf sc b = sc\<lparr>ibufs := (ibufs sc)(b := map_option Suc (ibufs sc b))\<rparr>"

definition IMB_freeImBuf :: "Scene \<Rightarrow> addr \<Rightarrow> Scene" where
  "IMB_freeImBuf sc b =
     (case ibufs sc b of
        None \<Rightarrow> sc
      | Some n \<Rightarrow> sc\<lparr>ibufs := (ibufs sc)(b := (if n = 0 then None else Some (n - 1)))\<rparr>)"

definition seq_cache_valfree :: "Scene \<Rightarrow> SeqCacheItem \<Rightarrow> Scene" where
  "seq_cache_valfree sc item = (case ibuf item of None \<Rightarrow> sc | Some b \<Rightarrow> IMB_freeImBuf sc b)"

text \<open>\<^verbatim>\<open>BLI_ghash_remove(cache->hash, key, seq_cache_keyfree, seq_cache_valfree)\<close>.\<close>

definition BLI_ghash_remove :: "Collab \<Rightarrow> Scene \<Rightarrow> SeqCache \<Rightarrow> SeqCacheKey \<Rightarrow> Scene" where
  "BLI_ghash_remove co sc c key =
     (case ghash_lookup_entry co (hash c) key of
        None \<Rightarrow> sc\<lparr>ed_cache := Some c\<rparr>
      | Some e \<Rightarrow>
          seq_cache_valfree
            (sc\<lparr>ed_cache := Some (c\<lparr>hash := ghash_remove_entry co (hash c) key\<rparr>)\<rparr>) (snd (snd e)))"

definition cache_hash :: "Scene \<Rightarrow> entry list" where
  "cache_hash sc = (case ed_cache sc of None \<Rightarrow> [] | Some c \<Rightarrow> hash c)"

subsection \<open>Insertion\<close>

definition get_stored_types_flag :: "Scene \<Rightarrow> SeqCacheKey \<Rightarrow> 32 word" where
  "get_stored_types_flag sc key =
     (let flag = (if cache_flag (strips sc (strip key)) AND SEQ_CACHE_OVERRIDE \<noteq> 0
                  then cache_flag (strips sc (strip key)) else ed_cache_flag sc)
      in flag OR (ed_cache_flag sc AND SEQ_CACHE_STORE_FINAL_OUT))"

text \<open>
  \<^verbatim>\<open>seq_cache_put_ex(scene, key, ibuf)\<close>: \<open>a\<close> is the address of \<^verbatim>\<open>key\<close> (fresh from the
  pool, not yet in the table) and \<open>key\<close> what is stored there. The assertion that the
  table does not have the key is not modelled: \<open>seq_cache_put\<close> looks the key up before
  it inserts.
\<close>

definition seq_cache_put_ex :: "Scene \<Rightarrow> addr \<Rightarrow> SeqCacheKey \<Rightarrow> addr \<Rightarrow> error + Scene" where
  "seq_cache_put_ex sc a key ib =
     (case seq_cache_get_from_scene sc of
        None \<Rightarrow> Inl NullDeref
      | Some cache \<Rightarrow>
          (let stored_types_flag = get_stored_types_flag sc key;
               key = (if stored_types_flag AND type key \<noteq> 0
                      then key\<lparr>is_temp_cache := False, link_prev := last_key cache\<rparr> else key);
               cache = BLI_ghash_insert cache a key \<lparr>ibuf = Some ib\<rparr>;
               sc = IMB_refImBuf sc ib;
               temp_last_key = last_key cache;
               cache = cache\<lparr>last_key := Some a\<rparr>
           in case (if \<not> is_temp_cache key \<and> temp_last_key \<noteq> None
                    then (case key_deref cache temp_last_key of
                            Inl e \<Rightarrow> Inl e
                          | Inr _ \<Rightarrow> Inr (key_update cache (the temp_last_key)
                                            (\<lambda>k. k\<lparr>link_next := last_key cache\<rparr>)))
                    else Inr cache) of
                Inl e \<Rightarrow> Inl e
              | Inr cache \<Rightarrow>
                  Inr (sc\<lparr>ed_cache := Some (if type key = SEQ_CACHE_STORE_FINAL_OUT
                                              then cache\<lparr>last_key := None\<rparr> else cache)\<rparr>)))"

definition seq_cache_get_ex :: "Collab \<Rightarrow> Scene \<Rightarrow> SeqCache \<Rightarrow> SeqCacheKey \<Rightarrow> Scene \<times> addr option" where
  "seq_cache_get_ex co sc cache key =
     (case BLI_ghash_lookup co cache key of
        None \<Rightarrow> (sc, None)
      | Some item \<Rightarrow> (case ibuf item of None \<Rightarrow> (sc, None) | Some b \<Rightarrow> (IMB_refImBuf sc b, Some b)))"

subsection \<open>Chains\<close>

definition seq_cache_key_unlink :: "SeqCache \<Rightarrow> addr \<Rightarrow> error + SeqCache" where
  "seq_cache_key_unlink c a =
     (case key_deref c (Some a) of
        Inl e \<Rightarrow> Inl e
      | Inr key \<Rightarrow>
          (case (case link_next key of
                   None \<Rightarrow> Inr c
                 | Some n \<Rightarrow> (case key_deref c (Some n) of
                                Inl e \<Rightarrow> Inl e
                              | Inr _ \<Rightarrow> Inr (key_update c n (\<lambda>k. k\<lparr>link_prev := link_prev key\<rparr>)))) of
             Inl e \<Rightarrow> Inl e
           | Inr c1 \<Rightarrow>
               (case key_deref c1 (Some a) of
                  Inl e \<Rightarrow> Inl e
                | Inr key \<Rightarrow>
                    (case link_prev key of
                       None \<Rightarrow> Inr c1
                     | Some p \<Rightarrow> (case key_deref c1 (Some p) of
                                    Inl e \<Rightarrow> Inl e
                                  | Inr _ \<Rightarrow> Inr (key_update c1 p (\<lambda>k. k\<lparr>link_next := link_next key\<rparr>)))))))"

subsection \<open>Choosing what to recycle\<close>

definition seq_cache_choose_key ::
  "Collab \<Rightarrow> Scene \<Rightarrow> SeqCache \<Rightarrow> addr option \<Rightarrow> addr option \<Rightarrow> error + addr option" where
  "seq_cache_choose_key co sc c lkey rkey =
     (case key_deref c lkey of
        Inl e \<Rightarrow> Inl e
      | Inr lk \<Rightarrow>
     (case seq_cache_key_timeline_frame_get sc lk of
        Inl e \<Rightarrow> Inl e
      | Inr lkey_tml_frame \<Rightarrow>
     (case key_deref c rkey of
        Inl e \<Rightarrow> Inl e
      | Inr rk \<Rightarrow>
     (case seq_cache_key_timeline_frame_get sc rk of
        Inl e \<Rightarrow> Inl e
      | Inr rkey_tml_frame \<Rightarrow>
          (if ed_cache_flag sc AND SEQ_CACHE_PREFETCH_ENABLE \<noteq> 0 \<and> seq_prefetch_job_is_running co
           then (let (pfjob_start, pfjob_end) = seq_prefetch_get_time_range co
                 in if lkey \<noteq> None \<and> (lkey_tml_frame < pfjob_start \<or> lkey_tml_frame > pfjob_end)
                    then Inr lkey
                    else if rkey \<noteq> None \<and> (rkey_tml_frame < pfjob_start \<or> rkey_tml_frame > pfjob_end)
                    then Inr rkey
                    else Inr None)
           else if rkey \<noteq> None \<and> lkey \<noteq> None
           then (let (lkey', rkey') = (if lkey_tml_frame > rkey_tml_frame then (rkey, lkey) else (lkey, rkey));
                     l_diff = r_cfra sc - lkey_tml_frame;
                     r_diff = rkey_tml_frame - r_cfra sc
                 in if l_diff > r_diff then Inr lkey' else Inr rkey')
           else if lkey \<noteq> None then Inr lkey else Inr rkey)))))"

subsection \<open>Recycling a chain\<close>

text \<open>The two statements \<^verbatim>\<open>seq_cache_key_unlink(key); BLI_ghash_remove(cache->hash, key, ...)\<close>;
  \<open>key\<close> is what \<open>a\<close> points to (unlinking writes link fields only, which the table
  neither hashes nor compares).\<close>

definition unlink_and_remove :: "Collab \<Rightarrow> Scene \<Rightarrow> SeqCache \<Rightarrow> addr \<Rightarrow> SeqCacheKey \<Rightarrow> error + Scene" where
  "unlink_and_remove co sc cache a key =
     (case seq_cache_key_unlink cache a of
        Inl e \<Rightarrow> Inl e
      | Inr c1 \<Rightarrow> Inr (BLI_ghash_remove co sc c1 key))"

text \<open>Facts for the termination of the recycling loops: unlinking writes link fields
  only, and removing a key the table has makes the table shorter.\<close>

lemma key_lookup_map:
  "key_lookup (map (\<lambda>(a', k, i). if a' = a then (a', f k, i) else (a', k, i)) es) x =
     (if x = a then map_option f (key_lookup es a) else key_lookup es x)"
  by (induction es) auto

lemma key_lookup_update:
  "key_lookup (hash (key_update c a f)) x =
     (if x = a then map_option f (key_lookup (hash c) a) else key_lookup (hash c) x)"
  by (simp add: key_update_def key_lookup_map)

lemma length_key_update: "length (hash (key_update c a f)) = length (hash c)"
  by (simp add: key_update_def)

lemma unlink_length: "seq_cache_key_unlink c a = Inr c1 \<Longrightarrow> length (hash c1) = length (hash c)"
  by (auto simp: seq_cache_key_unlink_def length_key_update split: sum.splits option.splits)

definition links_only :: "(SeqCacheKey \<Rightarrow> SeqCacheKey) \<Rightarrow> bool" where
  "links_only f = (\<forall>k. strip (f k) = strip k \<and> context' (f k) = context' k \<and>
      frame_index (f k) = frame_index k \<and> type (f k) = type k)"

lemma hashcmp_links_only: "links_only f \<Longrightarrow> seq_cache_hashcmp co key (f k) = seq_cache_hashcmp co key k"
  by (simp add: links_only_def seq_cache_hashcmp_def)

lemma hashhash_links_only: "links_only f \<Longrightarrow> seq_cache_hashhash co (f k) = seq_cache_hashhash co k"
  by (simp add: links_only_def seq_cache_hashhash_def Let_def cong: sum.case_cong)

lemma match_links_only:
  "links_only f \<Longrightarrow> ghash_match co n key (a, f k, i) = ghash_match co n key (a, k, i)"
  by (simp add: ghash_match_def ghash_bucket_index_def hashcmp_links_only hashhash_links_only)

lemma bucket_lookup_map_links:
  assumes "links_only f"
  shows "(bucket_lookup co n (map (\<lambda>(a', k, i). if a' = a then (a', f k, i) else (a', k, i)) es) key = None)
      \<longleftrightarrow> (bucket_lookup co n es key = None)"
  using assms by (induction es) (auto simp: match_links_only split: prod.splits)

lemma lookup_entry_map_links:
  assumes "links_only f"
  shows "(ghash_lookup_entry co (map (\<lambda>(a', k, i). if a' = a then (a', f k, i) else (a', k, i)) es) key = None)
      \<longleftrightarrow> (ghash_lookup_entry co es key = None)"
  using assms by (simp add: ghash_lookup_entry_def bucket_lookup_map_links)

lemma haskey_key_update:
  "links_only f \<Longrightarrow> BLI_ghash_haskey co (key_update c a f) key = BLI_ghash_haskey co c key"
  by (simp add: BLI_ghash_haskey_def key_update_def lookup_entry_map_links)

lemma links_only_simps [simp]:
  "links_only (\<lambda>k. k\<lparr>link_prev := x\<rparr>)" "links_only (\<lambda>k. k\<lparr>link_next := y\<rparr>)"
  "links_only (\<lambda>k. k\<lparr>is_temp_cache := b\<rparr>)"
  by (simp_all add: links_only_def)

lemma unlink_haskey:
  "seq_cache_key_unlink c a = Inr c1 \<Longrightarrow> BLI_ghash_haskey co c1 key = BLI_ghash_haskey co c key"
  by (auto simp: seq_cache_key_unlink_def haskey_key_update split: sum.splits option.splits)

lemma bucket_remove_length:
  "bucket_lookup co n es key \<noteq> None \<Longrightarrow> length (bucket_remove co n es key) < length es"
  by (induction es) auto

lemma remove_entry_length:
  "ghash_lookup_entry co es key \<noteq> None \<Longrightarrow> length (ghash_remove_entry co es key) < length es"
  by (simp add: ghash_lookup_entry_def ghash_remove_entry_def bucket_remove_length)

lemma cache_hash_valfree [simp]: "cache_hash (seq_cache_valfree sc i) = cache_hash sc"
  by (simp add: seq_cache_valfree_def IMB_freeImBuf_def cache_hash_def split: option.splits)

lemma unlink_and_remove_shrinks:
  assumes "BLI_ghash_haskey co cache key" "unlink_and_remove co sc cache a key = Inr sc'"
  shows "length (cache_hash sc') < length (hash cache)"
proof -
  from assms(2) obtain c1 where u: "seq_cache_key_unlink cache a = Inr c1"
    and s: "sc' = BLI_ghash_remove co sc c1 key"
    by (auto simp: unlink_and_remove_def split: sum.splits)
  have h: "ghash_lookup_entry co (hash c1) key \<noteq> None"
    using unlink_haskey [OF u, of co key] assms(1) by (simp add: BLI_ghash_haskey_def)
  then obtain e where e: "ghash_lookup_entry co (hash c1) key = Some e" by blast
  have "cache_hash sc' = ghash_remove_entry co (hash c1) key"
    by (simp add: s BLI_ghash_remove_def e) (simp add: cache_hash_def)
  with remove_entry_length [OF h] unlink_length [OF u] show ?thesis by simp
qed

text \<open>The two loops of \<^verbatim>\<open>seq_cache_recycle_linked\<close>. After each removal the source has
  \<^verbatim>\<open>BLI_assert(base != cache->last_key)\<close>: removing the key the chain tail points to is
  the error \<open>AssertFailed\<close> (without the assertion the chain tail would be left pointing
  to a freed key).\<close>

function recycle_linked_prev :: "Collab \<Rightarrow> Scene \<Rightarrow> addr option \<Rightarrow> error + Scene" where
  "recycle_linked_prev co sc base =
     (case base of
        None \<Rightarrow> Inr sc
      | Some b \<Rightarrow>
     (case ed_cache sc of
        None \<Rightarrow> Inl NullDeref
      | Some cache \<Rightarrow>
     (case key_deref cache base of
        Inl e \<Rightarrow> Inl e
      | Inr key \<Rightarrow>
          if \<not> BLI_ghash_haskey co cache key then Inr sc
          else (case (case link_prev key of
                        None \<Rightarrow> Inr False
                      | Some p \<Rightarrow> (case key_deref cache (Some p) of
                                     Inl e \<Rightarrow> Inl e
                                   | Inr prev \<Rightarrow> Inr (link_next prev \<noteq> base))) of
                  Inl e \<Rightarrow> Inl e
                | Inr replaced \<Rightarrow>
                    if replaced
                    then Inr (sc\<lparr>ed_cache := Some (key_update cache b (\<lambda>k. k\<lparr>link_prev := None\<rparr>))\<rparr>)
                    else (case unlink_and_remove co sc cache b key of
                            Inl e \<Rightarrow> Inl e
                          | Inr sc' \<Rightarrow>
                              if last_key cache = base then Inl AssertFailed
                              else recycle_linked_prev co sc' (link_prev key))))))"
  by pat_completeness auto
termination
  by (relation "measure (\<lambda>(co, sc, base). length (cache_hash sc))")
     (auto simp: cache_hash_def dest: unlink_and_remove_shrinks)


function recycle_linked_next :: "Collab \<Rightarrow> Scene \<Rightarrow> addr option \<Rightarrow> error + Scene" where
  "recycle_linked_next co sc base =
     (case base of
        None \<Rightarrow> Inr sc
      | Some b \<Rightarrow>
     (case ed_cache sc of
        None \<Rightarrow> Inl NullDeref
      | Some cache \<Rightarrow>
     (case key_deref cache base of
        Inl e \<Rightarrow> Inl e
      | Inr key \<Rightarrow>
          if \<not> BLI_ghash_haskey co cache key then Inr sc
          else (case (case link_next key of
                        None \<Rightarrow> Inr False
                      | Some n \<Rightarrow> (case key_deref cache (Some n) of
                                     Inl e \<Rightarrow> Inl e
                                   | Inr next \<Rightarrow> Inr (link_prev next \<noteq> base))) of
                  Inl e \<Rightarrow> Inl e
                | Inr replaced \<Rightarrow>
                    if replaced
                    then Inr (sc\<lparr>ed_cache := Some (key_update cache b (\<lambda>k. k\<lparr>link_next := None\<rparr>))\<rparr>)
                    else (case unlink_and_remove co sc cache b key of
                            Inl e \<Rightarrow> Inl e
                          | Inr sc' \<Rightarrow>
                              if last_key cache = base then Inl AssertFailed
                              else recycle_linked_next co sc' (link_next key))))))"
  by pat_completeness auto
termination
  by (relation "measure (\<lambda>(co, sc, base). length (cache_hash sc))")
     (auto simp: cache_hash_def dest: unlink_and_remove_shrinks)

definition seq_cache_recycle_linked :: "Collab \<Rightarrow> Scene \<Rightarrow> addr option \<Rightarrow> error + Scene" where
  "seq_cache_recycle_linked co sc base =
     (case seq_cache_get_from_scene sc of
        None \<Rightarrow> Inr sc
      | Some cache \<Rightarrow>
          (case key_deref cache base of
             Inl e \<Rightarrow> Inl e
           | Inr key \<Rightarrow>
               (let next = link_next key
                in case recycle_linked_prev co sc base of
                     Inl e \<Rightarrow> Inl e
                   | Inr sc \<Rightarrow> recycle_linked_next co sc next)))"

definition seq_cache_is_full :: "Collab \<Rightarrow> Scene \<Rightarrow> bool" where
  "seq_cache_is_full co sc = (memcachelimit co * 1024 * 1024 < MEM_get_memory_in_use co sc)"

text \<open>One step of the scan for the leftmost and the rightmost candidate: \<open>a\<close> points to
  \<open>key\<close>, a permanent key at the end of its chain.\<close>

definition scan_candidate ::
  "Scene \<Rightarrow> SeqCache \<Rightarrow> addr \<Rightarrow> SeqCacheKey \<Rightarrow> addr option \<Rightarrow> addr option \<Rightarrow> error + addr option \<times> addr option" where
  "scan_candidate sc cache a key lkey rkey =
     (case (case lkey of
              None \<Rightarrow> Inr (Some a)
            | Some _ \<Rightarrow>
                (case seq_cache_key_timeline_frame_get sc key of
                   Inl e \<Rightarrow> Inl e
                 | Inr f \<Rightarrow>
                (case key_deref cache lkey of
                   Inl e \<Rightarrow> Inl e
                 | Inr lk \<Rightarrow>
                (case seq_cache_key_timeline_frame_get sc lk of
                   Inl e \<Rightarrow> Inl e
                 | Inr lf \<Rightarrow> Inr (if f < lf then Some a else lkey))))) of
        Inl e \<Rightarrow> Inl e
      | Inr lkey' \<Rightarrow>
          (case (case rkey of
                   None \<Rightarrow> Inr (Some a)
                 | Some _ \<Rightarrow>
                     (case seq_cache_key_timeline_frame_get sc key of
                        Inl e \<Rightarrow> Inl e
                      | Inr f \<Rightarrow>
                     (case key_deref cache rkey of
                        Inl e \<Rightarrow> Inl e
                      | Inr rk \<Rightarrow>
                     (case seq_cache_key_timeline_frame_get sc rk of
                        Inl e \<Rightarrow> Inl e
                      | Inr rf \<Rightarrow> Inr (if f > rf then Some a else rkey))))) of
             Inl e \<Rightarrow> Inl e
           | Inr rkey' \<Rightarrow> Inr (lkey', rkey')))"

text \<open>The scan of \<^verbatim>\<open>seq_cache_get_item_for_removal\<close>: \<open>es\<close> is what the iterator has
  still to visit. After recycling an item without image the iterator starts again; that
  may go on for ever, and then the result is \<open>None\<close>.\<close>

partial_function (option) removal_scan ::
  "Collab \<Rightarrow> Scene \<Rightarrow> entry list \<Rightarrow> addr option \<Rightarrow> addr option \<Rightarrow> (error + Scene \<times> addr option \<times> addr option) option" where
  "removal_scan co sc es lkey rkey =
     (case es of
        [] \<Rightarrow> Some (Inr (sc, lkey, rkey))
      | e # es' \<Rightarrow>
          (let a = fst e; key = fst (snd e); item = snd (snd e)
           in if ibuf item = None
              then (case seq_cache_recycle_linked co sc (Some a) of
                      Inl err \<Rightarrow> Some (Inl err)
                    | Inr sc' \<Rightarrow> removal_scan co sc' (cache_hash sc') lkey rkey)
              else if is_temp_cache key \<or> link_next key \<noteq> None
              then removal_scan co sc es' lkey rkey
              else (case ed_cache sc of
                      None \<Rightarrow> Some (Inl NullDeref)
                    | Some cache \<Rightarrow>
                        (case scan_candidate sc cache a key lkey rkey of
                           Inl err \<Rightarrow> Some (Inl err)
                         | Inr lr \<Rightarrow> removal_scan co sc es' (fst lr) (snd lr)))))"

definition seq_cache_get_item_for_removal :: "Collab \<Rightarrow> Scene \<Rightarrow> (error + Scene \<times> addr option) option" where
  "seq_cache_get_item_for_removal co sc =
     (case seq_cache_get_from_scene sc of
        None \<Rightarrow> Some (Inl NullDeref)
      | Some cache \<Rightarrow>
          (case removal_scan co sc (hash cache) None None of
             None \<Rightarrow> None
           | Some (Inl e) \<Rightarrow> Some (Inl e)
           | Some (Inr (sc', lkey, rkey)) \<Rightarrow>
               (case ed_cache sc' of
                  None \<Rightarrow> Some (Inl NullDeref)
                | Some cache' \<Rightarrow>
                    (case seq_cache_choose_key co sc' cache' lkey rkey of
                       Inl e \<Rightarrow> Some (Inl e)
                     | Inr finalkey \<Rightarrow> Some (Inr (sc', finalkey))))))"

text \<open>The loop of \<^verbatim>\<open>seq_cache_recycle_item\<close>: \<open>None\<close> when it does not end.\<close>

partial_function (option) recycle_item_loop :: "Collab \<Rightarrow> Scene \<Rightarrow> (error + Scene \<times> bool) option" where
  "recycle_item_loop co sc =
     (if seq_cache_is_full co sc
      then (case seq_cache_get_item_for_removal co sc of
              None \<Rightarrow> None
            | Some (Inl e) \<Rightarrow> Some (Inl e)
            | Some (Inr r) \<Rightarrow>
                (case snd r of
                   None \<Rightarrow> Some (Inr (fst r, False))
                 | Some finalkey \<Rightarrow>
                     (case seq_cache_recycle_linked co (fst r) (Some finalkey) of
                        Inl e \<Rightarrow> Some (Inl e)
                      | Inr sc' \<Rightarrow> recycle_item_loop co sc')))
      else Some (Inr (sc, True)))"

definition seq_cache_recycle_item :: "Collab \<Rightarrow> Scene \<Rightarrow> (error + Scene \<times> bool) option" where
  "seq_cache_recycle_item co sc =
     (case seq_cache_get_from_scene sc of
        None \<Rightarrow> Some (Inr (sc, False))
      | Some cache \<Rightarrow> recycle_item_loop co sc)"


subsection \<open>Marking a chain temporary\<close>

text \<open>The two loops of \<^verbatim>\<open>seq_cache_set_temp_cache_linked\<close> follow the links until a
  null pointer; on a cyclic chain they do not end (\<open>None\<close>).\<close>

partial_function (option) set_temp_cache_prev :: "SeqCache \<Rightarrow> addr option \<Rightarrow> (error + SeqCache) option" where
  "set_temp_cache_prev cache base =
     (case base of
        None \<Rightarrow> Some (Inr cache)
      | Some b \<Rightarrow>
          (case key_deref cache base of
             Inl e \<Rightarrow> Some (Inl e)
           | Inr key \<Rightarrow>
               set_temp_cache_prev (key_update cache b (\<lambda>k. k\<lparr>is_temp_cache := True\<rparr>)) (link_prev key)))"

partial_function (option) set_temp_cache_next :: "SeqCache \<Rightarrow> addr option \<Rightarrow> (error + SeqCache) option" where
  "set_temp_cache_next cache base =
     (case base of
        None \<Rightarrow> Some (Inr cache)
      | Some b \<Rightarrow>
          (case key_deref cache base of
             Inl e \<Rightarrow> Some (Inl e)
           | Inr key \<Rightarrow>
               set_temp_cache_next (key_update cache b (\<lambda>k. k\<lparr>is_temp_cache := True\<rparr>)) (link_next key)))"

definition seq_cache_set_temp_cache_linked :: "Scene \<Rightarrow> addr option \<Rightarrow> (error + Scene) option" where
  "seq_cache_set_temp_cache_linked sc base =
     (case seq_cache_get_from_scene sc of
        None \<Rightarrow> Some (Inr sc)
      | Some cache \<Rightarrow>
          if base = None then Some (Inr sc)
          else (case key_deref cache base of
                  Inl e \<Rightarrow> Some (Inl e)
                | Inr key \<Rightarrow>
                    (let next = link_next key
                     in case set_temp_cache_prev cache base of
                          None \<Rightarrow> None
                        | Some (Inl e) \<Rightarrow> Some (Inl e)
                        | Some (Inr cache) \<Rightarrow>
                            (case set_temp_cache_next cache next of
                               None \<Rightarrow> None
                             | Some (Inl e) \<Rightarrow> Some (Inl e)
                             | Some (Inr cache) \<Rightarrow> Some (Inr (sc\<lparr>ed_cache := Some cache\<rparr>))))))"

subsection \<open>The interface\<close>

definition seq_cache_create :: "Scene \<Rightarrow> Scene" where
  "seq_cache_create sc =
     (if ed_cache sc = None then sc\<lparr>ed_cache := Some \<lparr>hash = [], last_key = None\<rparr>\<rparr> else sc)"

definition seq_cache_populate_key ::
  "Collab \<Rightarrow> Scene \<Rightarrow> RenderData \<Rightarrow> addr \<Rightarrow> float32 \<Rightarrow> 32 word \<Rightarrow> SeqCacheKey" where
  "seq_cache_populate_key co sc context s timeline_frame ty =
     \<lparr>strip = s, context' = context,
      frame_index = seq_cache_timeline_frame_to_frame_index co sc s timeline_frame ty,
      type = ty, link_prev = None, link_next = None, is_temp_cache = True,
      key_task_id = task_id context\<rparr>"

text \<open>
  \<^verbatim>\<open>seq_cache_cleanup_strip\<close>. The call of the disk cache's own invalidation is the
  collaborator's and leaves the scene as it is. \<open>es\<close> is what the iterator has still to
  visit; a step removes the visited key only.
\<close>

fun cleanup_strip_loop ::
  "Collab \<Rightarrow> Scene \<Rightarrow> addr \<Rightarrow> addr \<Rightarrow> int \<Rightarrow> int \<Rightarrow> 32 word \<Rightarrow> 32 word \<Rightarrow> entry list \<Rightarrow> error + Scene" where
  "cleanup_strip_loop co sc s strip_changed range_start range_end invalidate_composite invalidate_source [] = Inr sc"
| "cleanup_strip_loop co sc s strip_changed range_start range_end invalidate_composite invalidate_source (e # es) =
     (let a = fst e; key = fst (snd e)
      in case ed_cache sc of
           None \<Rightarrow> Inl NullDeref
         | Some cache \<Rightarrow>
        (case seq_cache_key_timeline_frame_get sc key of
           Inl err \<Rightarrow> Inl err
         | Inr key_timeline_frame \<Rightarrow>
             if type key AND invalidate_composite \<noteq> 0 \<and> key_timeline_frame \<ge> range_start \<and>
                key_timeline_frame \<le> range_end
             then (case unlink_and_remove co sc cache a key of
                     Inl err \<Rightarrow> Inl err
                   | Inr sc' \<Rightarrow> cleanup_strip_loop co sc' s strip_changed range_start range_end
                                  invalidate_composite invalidate_source es)
             else if type key AND invalidate_source \<noteq> 0 \<and> strip key = s \<and>
                key_timeline_frame \<ge> left_handle (strips sc strip_changed) \<and>
                key_timeline_frame \<le> right_handle (strips sc strip_changed)
             then (case unlink_and_remove co sc cache a key of
                     Inl err \<Rightarrow> Inl err
                   | Inr sc' \<Rightarrow> cleanup_strip_loop co sc' s strip_changed range_start range_end
                                  invalidate_composite invalidate_source es)
             else cleanup_strip_loop co sc s strip_changed range_start range_end
                    invalidate_composite invalidate_source es))"

definition seq_cache_cleanup_strip ::
  "Collab \<Rightarrow> Scene \<Rightarrow> addr \<Rightarrow> addr \<Rightarrow> 32 word \<Rightarrow> bool \<Rightarrow> error + Scene" where
  "seq_cache_cleanup_strip co sc s strip_changed invalidate_types force_strip_changed_range =
     (case seq_cache_get_from_scene sc of
        None \<Rightarrow> Inr sc
      | Some cache \<Rightarrow>
          (let range_start_strip_changed = left_handle (strips sc strip_changed);
               range_end_strip_changed = right_handle (strips sc strip_changed);
               range_start = (if \<not> force_strip_changed_range
                              then max range_start_strip_changed (left_handle (strips sc s))
                              else range_start_strip_changed);
               range_end = (if \<not> force_strip_changed_range
                            then min range_end_strip_changed (right_handle (strips sc s))
                            else range_end_strip_changed);
               invalidate_composite = invalidate_types AND SEQ_CACHE_STORE_FINAL_OUT;
               invalidate_source = invalidate_types AND
                 (SEQ_CACHE_STORE_RAW OR SEQ_CACHE_STORE_PREPROCESSED OR SEQ_CACHE_STORE_COMPOSITE)
           in case cleanup_strip_loop co sc s strip_changed range_start range_end
                     invalidate_composite invalidate_source (hash cache) of
                Inl e \<Rightarrow> Inl e
              | Inr sc' \<Rightarrow>
                  (case ed_cache sc' of
                     None \<Rightarrow> Inl NullDeref
                   | Some cache' \<Rightarrow> Inr (sc'\<lparr>ed_cache := Some (cache'\<lparr>last_key := None\<rparr>)\<rparr>))))"

text \<open>
  \<^verbatim>\<open>seq_cache_get\<close>. \<open>new_key\<close> is the address the key pool hands out if a key is
  allocated. The strip is a pointer that may be null. The scene is the one the context
  points to, also after the context was replaced by the prefetch job's original one.
\<close>

definition seq_cache_get ::
  "Collab \<Rightarrow> Scene \<Rightarrow> addr \<Rightarrow> RenderData \<Rightarrow> addr option \<Rightarrow> float32 \<Rightarrow> 32 word \<Rightarrow> (error + Scene \<times> addr option) option" where
  "seq_cache_get co sc new_key context s timeline_frame ty =
     (if skip_cache context \<or> is_proxy_render context \<or> s = None then Some (Inr (sc, None))
      else
        (let s = (if is_prefetch_render context then seq_prefetch_original_strip_get co s else s);
             context = (if is_prefetch_render context
                        then seq_prefetch_original_context_get co context else context)
         in case s of
              None \<Rightarrow> Some (Inr (sc, None))
            | Some st \<Rightarrow>
                (let sc = (if ed_cache sc = None then seq_cache_create sc else sc)
                 in case seq_cache_get_from_scene sc of
                      None \<Rightarrow> Some (Inl NullDeref)
                    | Some cache \<Rightarrow>
                        (let key = seq_cache_populate_key co sc context st timeline_frame ty;
                             (sc, ib) = seq_cache_get_ex co sc cache key
                         in if ib \<noteq> None then Some (Inr (sc, ib))
                            else if for_render context then Some (Inr (sc, None))
                            else if seq_disk_cache_is_enabled co
                            then (case seq_disk_cache_read_file co key of
                                    None \<Rightarrow> Some (Inr (sc, None))
                                  | Some b \<Rightarrow>
                                      (case (if type key \<noteq> SEQ_CACHE_STORE_FINAL_OUT
                                             then Some (Inr (sc, True))
                                             else seq_cache_recycle_item co sc) of
                                         None \<Rightarrow> None
                                       | Some (Inl e) \<Rightarrow> Some (Inl e)
                                       | Some (Inr r) \<Rightarrow>
                                           if snd r
                                           then (case seq_cache_put_ex (fst r) new_key
                                                        (seq_cache_populate_key co (fst r) context st timeline_frame ty) b of
                                                   Inl e \<Rightarrow> Some (Inl e)
                                                 | Inr sc' \<Rightarrow> Some (Inr (sc', Some b)))
                                           else Some (Inr (fst r, Some b))))
                            else Some (Inr (sc, None))))))"

text \<open>\<^verbatim>\<open>seq_cache_put\<close>. Writing the image to the disk cache is the collaborator's and
  leaves the scene as it is.\<close>

definition seq_cache_put ::
  "Collab \<Rightarrow> Scene \<Rightarrow> addr \<Rightarrow> RenderData \<Rightarrow> addr option \<Rightarrow> float32 \<Rightarrow> 32 word \<Rightarrow> addr option \<Rightarrow> (error + Scene) option" where
  "seq_cache_put co sc new_key context s timeline_frame ty i =
     (if i = None \<or> skip_cache context \<or> is_proxy_render context \<or> s = None then Some (Inr sc)
      else
        (let s = (if is_prefetch_render context then seq_prefetch_original_strip_get co s else s);
             context = (if is_prefetch_render context
                        then seq_prefetch_original_context_get co context else context)
         in case seq_cache_get co sc new_key context s timeline_frame ty of
              None \<Rightarrow> None
            | Some (Inl e) \<Rightarrow> Some (Inl e)
            | Some (Inr (sc, test)) \<Rightarrow>
                (case test of
                   Some t \<Rightarrow> Some (Inr (IMB_freeImBuf sc t))
                 | None \<Rightarrow>
                     (let sc = (if ed_cache sc = None then seq_cache_create sc else sc)
                      in case s of
                           None \<Rightarrow> Some (Inl NullDeref)
                         | Some st \<Rightarrow>
                             (let key = seq_cache_populate_key co sc context st timeline_frame ty
                              in case seq_cache_put_ex sc new_key key (the i) of
                                   Inl e \<Rightarrow> Some (Inl e)
                                 | Inr sc \<Rightarrow>
                                     if for_render context
                                     then (case ed_cache sc of
                                             None \<Rightarrow> Some (Inl NullDeref)
                                           | Some cache \<Rightarrow>
                                               Some (Inr (sc\<lparr>ed_cache := Some (key_update cache new_key
                                                            (\<lambda>k. k\<lparr>is_temp_cache := True\<rparr>))\<rparr>)))
                                     else Some (Inr sc))))))"

definition seq_cache_put_if_possible ::
  "Collab \<Rightarrow> Scene \<Rightarrow> addr \<Rightarrow> RenderData \<Rightarrow> addr option \<Rightarrow> float32 \<Rightarrow> 32 word \<Rightarrow> addr option \<Rightarrow> (error + Scene \<times> bool) option" where
  "seq_cache_put_if_possible co sc new_key context s timeline_frame ty ib =
     (let s = (if is_prefetch_render context then seq_prefetch_original_strip_get co s else s);
          context = (if is_prefetch_render context
                     then seq_prefetch_original_context_get co context else context)
      in (if s = None then Some (Inr (sc, False))
              else (case seq_cache_recycle_item co sc of
                      None \<Rightarrow> None
                    | Some (Inl e) \<Rightarrow> Some (Inl e)
                    | Some (Inr r) \<Rightarrow>
                        if snd r
                        then (case seq_cache_put co (fst r) new_key context s timeline_frame ty ib of
                                None \<Rightarrow> None
                              | Some (Inl e) \<Rightarrow> Some (Inl e)
                              | Some (Inr sc') \<Rightarrow> Some (Inr (sc', True)))
                        else (case ed_cache (fst r) of
                                None \<Rightarrow> Some (Inr (fst r, False))
                              | Some cache \<Rightarrow>
                                  (case seq_cache_set_temp_cache_linked (fst r) (last_key cache) of
                                     None \<Rightarrow> None
                                   | Some (Inl e) \<Rightarrow> Some (Inl e)
                                   | Some (Inr sc') \<Rightarrow>
                                       (case ed_cache sc' of
                                          None \<Rightarrow> Some (Inl NullDeref)
                                        | Some cache' \<Rightarrow>
                                            Some (Inr (sc'\<lparr>ed_cache := Some (cache'\<lparr>last_key := None\<rparr>)\<rparr>, False))))))))"

text \<open>
  \<^verbatim>\<open>cache_iterate\<close>. The two callbacks are functions on the caller's data \<open>'u\<close>; they
  return it with the flag that interrupts the loop.
\<close>

fun cache_iterate_loop ::
  "Scene \<Rightarrow> ('u \<Rightarrow> addr \<Rightarrow> int \<Rightarrow> 32 word \<Rightarrow> 'u \<times> bool) \<Rightarrow> entry list \<Rightarrow> 'u \<Rightarrow> bool \<Rightarrow> error + 'u" where
  "cache_iterate_loop sc callback_iter [] userdata interrupt = Inr userdata"
| "cache_iterate_loop sc callback_iter (e # es) userdata interrupt =
     (if interrupt then Inr userdata
      else (let key = fst (snd e)
            in case (if type key AND SEQ_CACHE_STORE_FINAL_OUT \<noteq> 0
                     then seq_cache_key_timeline_frame_get sc key
                     else f32_to_int (f32_add (frame_index key) (time_start_frame_get sc (strip key)))) of
                 Inl err \<Rightarrow> Inl err
               | Inr timeline_frame \<Rightarrow>
                   (let (userdata, interrupt) = callback_iter userdata (strip key) timeline_frame (type key)
                    in cache_iterate_loop sc callback_iter es userdata interrupt)))"

definition cache_iterate ::
  "Scene \<Rightarrow> 'u \<Rightarrow> ('u \<Rightarrow> nat \<Rightarrow> 'u \<times> bool) \<Rightarrow> ('u \<Rightarrow> addr \<Rightarrow> int \<Rightarrow> 32 word \<Rightarrow> 'u \<times> bool) \<Rightarrow> error + Scene \<times> 'u" where
  "cache_iterate sc userdata callback_init callback_iter =
     (case seq_cache_get_from_scene sc of
        None \<Rightarrow> Inr (sc, userdata)
      | Some cache \<Rightarrow>
          (let (userdata, interrupt) = callback_init userdata (length (hash cache))
           in case cache_iterate_loop sc callback_iter (hash cache) userdata interrupt of
                Inl e \<Rightarrow> Inl e
              | Inr userdata \<Rightarrow> Inr (sc\<lparr>ed_cache := Some (cache\<lparr>last_key := None\<rparr>)\<rparr>, userdata)))"

section \<open>Concrete scenes\<close>

text \<open>A render context, collaborators with a prefetch job running over the frames 10 to
  20 and a static-image mapping (every frame of a strip maps to index 0), a strip that
  starts at frame 0, and keys of that strip.\<close>

definition ex_context :: RenderData where
  "ex_context = \<lparr>bmain = 1, scene = 2, rectx = 1920, recty = 1080, preview_render_size = 0,
     motion_blur_shutter = 0x3F000000, motion_blur_samples = 1, view_id = 0,
     skip_cache = False, is_proxy_render = False, is_prefetch_render = False,
     for_render = False, task_id = 0\<rparr>"

definition ex_collab :: Collab where
  "ex_collab = \<lparr>give_frame_index = (\<lambda>sc st f. 0),
     seq_prefetch_job_is_running = True,
     seq_prefetch_get_time_range = (10, 20),
     seq_prefetch_original_context_get = (\<lambda>c. c),
     seq_prefetch_original_strip_get = (\<lambda>s. s),
     seq_disk_cache_is_enabled = False,
     seq_disk_cache_read_file = (\<lambda>k. None),
     memcachelimit = 1,
     MEM_get_memory_in_use = (\<lambda>sc. 0),
     views_format = (\<lambda>s. 0),
     ghash_nbuckets = (\<lambda>n. 5)\<rparr>"

definition ex_key :: "float32 \<Rightarrow> 32 word \<Rightarrow> SeqCacheKey" where
  "ex_key fi ty = \<lparr>strip = 7, context' = ex_context, frame_index = fi, type = ty,
     link_prev = None, link_next = None, is_temp_cache = False, key_task_id = 0\<rparr>"

definition ex_strip :: Strip where
  "ex_strip = \<lparr>strip_type = 0, cache_flag = 0, start = 0, left_handle = 0, right_handle = 100\<rparr>"

definition ex_scene :: "SeqCache \<Rightarrow> Scene" where
  "ex_scene c = \<lparr>ed_cache = Some c, ed_cache_flag = 0x40F, r_cfra = 12,
     strips = (\<lambda>a. ex_strip), ibufs = (\<lambda>b. Some 1)\<rparr>"

definition ex_item :: "addr \<Rightarrow> SeqCacheItem" where
  "ex_item b = \<lparr>ibuf = Some b\<rparr>"

text \<open>Two final-output keys, at the timeline frames 5 (\<open>0x40A00000\<close> is 5.0) and 15
  (\<open>0x41700000\<close> is 15.0).\<close>

definition ex_cache_5_15 :: SeqCache where
  "ex_cache_5_15 =
     \<lparr>hash = [(100, ex_key 0x40A00000 8, ex_item 50), (101, ex_key 0x41700000 8, ex_item 51)],
      last_key = None\<rparr>"

section \<open>Properties\<close>

lemmas f32_eval = f32_to_int_def f32_add_def f32_sub_def f32_neg_def f32_mul_def f32_is_nan_def
  f32_is_inf_def f32_is_zero_def f32_exponent_def f32_fraction_def f32_units_def f32_magnitude_def
  f32_sign_def f32_round_def f32_pack_def f32_inf_def f32_qnan_def f32_ne_def rne_shift_def
  Let_def compute_floorlog

lemma key_deref_Some: "key_deref c (Some a) = Inr k \<longleftrightarrow> key_lookup (hash c) a = Some k"
  by (simp add: key_deref_def split: option.splits)

lemma ex_frame_5: "seq_cache_key_timeline_frame_get (ex_scene c) (ex_key 0x40A00000 ty) = Inr 5"
  by (simp add: seq_cache_key_timeline_frame_get_def time_start_frame_get_def ex_scene_def ex_strip_def
      ex_key_def f32_eval)

lemma ex_frame_15: "seq_cache_key_timeline_frame_get (ex_scene c) (ex_key 0x41700000 ty) = Inr 15"
  by (simp add: seq_cache_key_timeline_frame_get_def time_start_frame_get_def ex_scene_def ex_strip_def
      ex_key_def f32_eval)

subsection \<open>Choosing between the leftmost and the rightmost candidate\<close>

text \<open>
  C1. With prefetching enabled in the scene's cache flags and a prefetch job running over
  the frames \<open>pfjob_start\<close> to \<open>pfjob_end\<close>, \<open>seq_cache_choose_key\<close> on two candidates
  returns the left one when its timeline frame is outside the window, else the right one
  when its timeline frame is outside, else no key at all. With the window 10 to 20 and
  candidates at the frames 5 and 15 the key at frame 5 is returned, whichever side it is on.
\<close>

theorem choose_key_prefetch_window:
  assumes "ed_cache_flag sc AND SEQ_CACHE_PREFETCH_ENABLE \<noteq> 0"
    and "seq_prefetch_job_is_running co"
    and "seq_prefetch_get_time_range co = (pfjob_start, pfjob_end)"
    and "key_deref c (Some l) = Inr lk" and "seq_cache_key_timeline_frame_get sc lk = Inr lf"
    and "key_deref c (Some r) = Inr rk" and "seq_cache_key_timeline_frame_get sc rk = Inr rf"
  shows "seq_cache_choose_key co sc c (Some l) (Some r) =
     Inr (if lf < pfjob_start \<or> lf > pfjob_end then Some l
          else if rf < pfjob_start \<or> rf > pfjob_end then Some r else None)"
  using assms by (simp add: seq_cache_choose_key_def)

theorem choose_key_prefetch_window_witness:
  "seq_cache_choose_key ex_collab (ex_scene ex_cache_5_15) ex_cache_5_15 (Some 100) (Some 101) = Inr (Some 100) \<and>
   seq_cache_choose_key ex_collab (ex_scene ex_cache_5_15) ex_cache_5_15 (Some 101) (Some 100) = Inr (Some 100)"
proof -
  have f: "ed_cache_flag (ex_scene ex_cache_5_15) AND SEQ_CACHE_PREFETCH_ENABLE \<noteq> 0"
    by (simp add: ex_scene_def SEQ_CACHE_PREFETCH_ENABLE_def)
  have r: "seq_prefetch_job_is_running ex_collab" by (simp add: ex_collab_def)
  have w: "seq_prefetch_get_time_range ex_collab = (10, 20)" by (simp add: ex_collab_def)
  have l: "key_deref ex_cache_5_15 (Some 100) = Inr (ex_key 0x40A00000 8)"
    by (simp add: key_deref_def ex_cache_5_15_def)
  have k: "key_deref ex_cache_5_15 (Some 101) = Inr (ex_key 0x41700000 8)"
    by (simp add: key_deref_def ex_cache_5_15_def)
  show ?thesis
    using choose_key_prefetch_window [OF f r w l ex_frame_5 k ex_frame_15]
          choose_key_prefetch_window [OF f r w k ex_frame_15 l ex_frame_5]
    by simp
qed

subsection \<open>Hash and comparison of keys\<close>

text \<open>
  C9. Two keys that differ only in the sign of a zero \<open>frame_index\<close> (\<open>0x00000000\<close> is
  +0.0, \<open>0x80000000\<close> is -0.0) are equal for \<open>seq_cache_hashcmp\<close>, which compares the
  floats, and have different hash values, since \<open>seq_cache_hashhash\<close> mixes in the bit
  pattern of the float.
\<close>

theorem hash_differs_on_signed_zero:
  "seq_cache_hashcmp ex_collab (ex_key 0 1) (ex_key 0x80000000 1) = False \<and>
   seq_cache_hashhash ex_collab (ex_key 0 1) = Inr 115385 \<and>
   seq_cache_hashhash ex_collab (ex_key 0x80000000 1) = Inr 2147599033"
  by (simp add: seq_cache_hashcmp_def seq_cmp_render_data_def ex_key_def ex_context_def ex_collab_def
     seq_cache_hashhash_def seq_hash_render_data_def ptr_shl6_def f32_eval)

theorem hash_differs_on_signed_zero_witness:
  "\<not> seq_cache_hashcmp ex_collab (ex_key 0 1) (ex_key 0x80000000 1) \<and>
   seq_cache_hashhash ex_collab (ex_key 0 1) \<noteq> seq_cache_hashhash ex_collab (ex_key 0x80000000 1)"
  using hash_differs_on_signed_zero by simp

subsection \<open>Insertion and the chain\<close>

text \<open>What \<open>seq_cache_put_ex\<close> stores for \<open>key\<close> when the chain's tail is \<open>tail\<close>.\<close>

definition stored_key :: "Scene \<Rightarrow> SeqCacheKey \<Rightarrow> addr option \<Rightarrow> SeqCacheKey" where
  "stored_key sc key tail =
     (if get_stored_types_flag sc key AND type key \<noteq> 0
      then key\<lparr>is_temp_cache := False, link_prev := tail\<rparr> else key)"

lemma put_ex_fresh_chain:
  assumes "ed_cache sc = Some c" "last_key c = None"
  shows "seq_cache_put_ex sc a key ib =
     Inr (IMB_refImBuf sc ib\<lparr>ed_cache := Some
        \<lparr>hash = hash c @ [(a, stored_key sc key None, \<lparr>ibuf = Some ib\<rparr>)],
         last_key = (if type key = SEQ_CACHE_STORE_FINAL_OUT then None else Some a)\<rparr>\<rparr>)"
  using assms
  by (simp add: seq_cache_put_ex_def seq_cache_get_from_scene_def BLI_ghash_insert_def stored_key_def
      Let_def IMB_refImBuf_def)




text \<open>Insertions one after the other: the address of the key, the key as
  \<open>seq_cache_populate_key\<close> filled it, and the image.\<close>

fun put_ex_list :: "Scene \<Rightarrow> (addr \<times> SeqCacheKey \<times> addr) list \<Rightarrow> error + Scene" where
  "put_ex_list sc [] = Inr sc"
| "put_ex_list sc (p # ps) =
     (case seq_cache_put_ex sc (fst p) (fst (snd p)) (snd (snd p)) of
        Inl e \<Rightarrow> Inl e
      | Inr sc' \<Rightarrow> put_ex_list sc' ps)"

text \<open>The links of a key are null or point into \<open>N\<close>.\<close>

definition links_within :: "addr set \<Rightarrow> SeqCacheKey \<Rightarrow> bool" where
  "links_within N k = ((link_prev k = None \<or> the (link_prev k) \<in> N) \<and>
                       (link_next k = None \<or> the (link_next k) \<in> N))"




lemma key_lookup_append:
  "key_lookup (xs @ ys) a = (case key_lookup xs a of None \<Rightarrow> key_lookup ys a | Some k \<Rightarrow> Some k)"
  by (induction xs) auto






text \<open>A key as \<open>seq_cache_populate_key\<close> leaves it: no links, temporary.\<close>

definition populated :: "SeqCacheKey \<Rightarrow> bool" where
  "populated key = (link_prev key = None \<and> link_next key = None \<and> is_temp_cache key)"

lemma populated_populate_key [simp]: "populated (seq_cache_populate_key co sc context s tf ty)"
  by (simp add: populated_def seq_cache_populate_key_def)


text \<open>The scene with an empty cache, and keys populated in it for strip 7.\<close>

definition ex_empty_scene :: Scene where
  "ex_empty_scene = ex_scene \<lparr>hash = [], last_key = None\<rparr>"

definition ex_pkey :: "float32 \<Rightarrow> 32 word \<Rightarrow> SeqCacheKey" where
  "ex_pkey tf ty = seq_cache_populate_key ex_collab ex_empty_scene ex_context 7 tf ty"

lemmas ex_eval = ex_empty_scene_def ex_scene_def ex_strip_def ex_pkey_def ex_context_def ex_collab_def
  seq_cache_populate_key_def seq_cache_timeline_frame_to_frame_index_def time_start_frame_get_def
  seq_cache_put_ex_def seq_cache_get_from_scene_def get_stored_types_flag_def BLI_ghash_insert_def
  IMB_refImBuf_def key_deref_def key_update_def cache_hash_def
  SEQ_CACHE_STORE_RAW_def SEQ_CACHE_STORE_FINAL_OUT_def SEQ_CACHE_OVERRIDE_def STRIP_TYPE_EFFECT_def




subsection \<open>Temporary entries\<close>



lemmas ex_eval_ghash = ghash_lookup_entry_def ghash_remove_entry_def ghash_match_def
  ghash_bucket_index_def seq_cache_hashhash_def seq_hash_render_data_def ptr_shl6_def

lemmas ex_eval_put = seq_cache_put_def seq_cache_get_def seq_cache_get_ex_def BLI_ghash_lookup_def
  seq_cache_hashcmp_def seq_cmp_render_data_def seq_cache_create_def IMB_freeImBuf_def ex_eval_ghash


subsection \<open>Iteration\<close>

text \<open>Every key of \<open>es\<close> has a timeline frame (the conversion to \<^verbatim>\<open>int\<close> is defined).\<close>

definition frames_defined :: "Scene \<Rightarrow> entry list \<Rightarrow> bool" where
  "frames_defined sc es =
     list_all (\<lambda>e. \<exists>f. seq_cache_key_timeline_frame_get sc (fst (snd e)) = Inr f) es"

lemma cache_iterate_loop_returns:
  "frames_defined sc es \<Longrightarrow> \<exists>u'. cache_iterate_loop sc callback_iter es u interrupt = Inr u'"
proof (induction es arbitrary: u interrupt)
  case Nil
  then show ?case by simp
next
  case (Cons e es)
  from Cons.prems obtain f where f: "seq_cache_key_timeline_frame_get sc (fst (snd e)) = Inr f"
    and r: "frames_defined sc es"
    by (auto simp: frames_defined_def)
  have g: "f32_to_int (f32_add (frame_index (fst (snd e))) (time_start_frame_get sc (strip (fst (snd e))))) = Inr f"
    using f by (simp add: seq_cache_key_timeline_frame_get_def)
  obtain u1 i1 where c: "callback_iter u (strip (fst (snd e))) f (type (fst (snd e))) = (u1, i1)"
    by (cases "callback_iter u (strip (fst (snd e))) f (type (fst (snd e)))")
  from Cons.IH [OF r, of u1 i1] show ?case
    by (simp add: f g c Let_def)
qed

text \<open>
  C10. On a scene with a cache whose keys all have a timeline frame, \<open>cache_iterate\<close>
  returns, and the scene it returns is the one it got with the chain tail (\<open>last_key\<close>)
  null: the table and the reference counts of the images are as before. A key inserted
  next is stored with \<open>link_prev\<close> and \<open>link_next\<close> null and every entry that was in the
  table stays as it was, so it is not linked to any of them.
\<close>

theorem cache_iterate_resets_tail:
  assumes c: "ed_cache sc = Some c" and fr: "frames_defined sc (hash c)" and p: "populated key"
  shows "\<exists>u' sc' key'.
     cache_iterate sc u callback_init callback_iter = Inr (sc\<lparr>ed_cache := Some (c\<lparr>last_key := None\<rparr>)\<rparr>, u') \<and>
     seq_cache_put_ex (sc\<lparr>ed_cache := Some (c\<lparr>last_key := None\<rparr>)\<rparr>) a key ib = Inr sc' \<and>
     cache_hash sc' = hash c @ [(a, key', \<lparr>ibuf = Some ib\<rparr>)] \<and>
     link_prev key' = None \<and> link_next key' = None"
proof -
  obtain u0 i0 where i: "callback_init u (length (hash c)) = (u0, i0)"
    by (cases "callback_init u (length (hash c))")
  from cache_iterate_loop_returns [OF fr, of callback_iter u0 i0]
  obtain u' where l: "cache_iterate_loop sc callback_iter (hash c) u0 i0 = Inr u'" by blast
  have it: "cache_iterate sc u callback_init callback_iter = Inr (sc\<lparr>ed_cache := Some (c\<lparr>last_key := None\<rparr>)\<rparr>, u')"
    by (simp add: cache_iterate_def seq_cache_get_from_scene_def c i l)
  let ?sc = "sc\<lparr>ed_cache := Some (c\<lparr>last_key := None\<rparr>)\<rparr>"
  let ?k = "stored_key ?sc key None"
  have "seq_cache_put_ex ?sc a key ib = Inr (IMB_refImBuf ?sc ib\<lparr>ed_cache := Some
        \<lparr>hash = hash (c\<lparr>last_key := None\<rparr>) @ [(a, ?k, \<lparr>ibuf = Some ib\<rparr>)],
         last_key = (if type key = SEQ_CACHE_STORE_FINAL_OUT then None else Some a)\<rparr>\<rparr>)"
    by (rule put_ex_fresh_chain) simp_all
  moreover have "link_prev ?k = None" "link_next ?k = None"
    using p by (simp_all add: stored_key_def populated_def)
  ultimately show ?thesis using it by (auto simp: cache_hash_def IMB_refImBuf_def)
qed

theorem cache_iterate_resets_tail_witness:
  "\<exists>u' sc' key'.
     cache_iterate (ex_scene (ex_cache_5_15\<lparr>last_key := Some 101\<rparr>)) (0::nat)
        (\<lambda>u n. (u, False)) (\<lambda>u s f t. (Suc u, False)) = Inr (ex_scene ex_cache_5_15, u') \<and>
     seq_cache_put_ex (ex_scene ex_cache_5_15) 102 (ex_pkey 0x40C00000 2) 52 = Inr sc' \<and>
     cache_hash sc' = hash ex_cache_5_15 @ [(102, key', \<lparr>ibuf = Some 52\<rparr>)] \<and>
     link_prev key' = None \<and> link_next key' = None"
proof -
  have c: "ed_cache (ex_scene (ex_cache_5_15\<lparr>last_key := Some 101\<rparr>)) = Some (ex_cache_5_15\<lparr>last_key := Some 101\<rparr>)"
    by (simp add: ex_scene_def)
  have fr: "frames_defined (ex_scene (ex_cache_5_15\<lparr>last_key := Some 101\<rparr>)) (hash (ex_cache_5_15\<lparr>last_key := Some 101\<rparr>))"
    by (simp add: frames_defined_def ex_cache_5_15_def ex_frame_5 ex_frame_15)
  have p: "populated (ex_pkey 0x40C00000 2)" by (simp add: ex_pkey_def)
  have e: "ex_scene (ex_cache_5_15\<lparr>last_key := Some 101\<rparr>)\<lparr>ed_cache := Some (ex_cache_5_15\<lparr>last_key := None\<rparr>)\<rparr>
      = ex_scene ex_cache_5_15"
    by (simp add: ex_scene_def ex_cache_5_15_def)
  from cache_iterate_resets_tail [OF c fr p, of 0 "\<lambda>u n. (u, False)" "\<lambda>u s f t. (Suc u, False)" 102 52]
  show ?thesis by (simp add: e)
qed

subsection \<open>Storing under a key that is already cached\<close>

lemma fun_upd_same_value: "f x = y \<Longrightarrow> f(x := y) = f"
  by auto

lemma ref_then_free: "IMB_freeImBuf (IMB_refImBuf sc b) b = sc"
proof (cases "ibufs sc b")
  case None
  then have "(ibufs sc)(b := None) = ibufs sc" by (rule fun_upd_same_value)
  with None show ?thesis by (simp add: IMB_freeImBuf_def IMB_refImBuf_def)
next
  case (Some n)
  then have "(ibufs sc)(b := Some n) = ibufs sc" by (rule fun_upd_same_value)
  with Some show ?thesis by (simp add: IMB_freeImBuf_def IMB_refImBuf_def)
qed

lemma seq_cache_get_hit:
  assumes "\<not> is_prefetch_render ctx" "\<not> skip_cache ctx" "\<not> is_proxy_render ctx"
    and "ed_cache sc = Some c"
    and "ghash_lookup_entry co (hash c) (seq_cache_populate_key co sc ctx st tf ty) = Some e"
    and "ibuf (snd (snd e)) = Some b"
  shows "seq_cache_get co sc new_key ctx (Some st) tf ty = Some (Inr (IMB_refImBuf sc b, Some b))"
  using assms
  by (simp add: seq_cache_get_def seq_cache_get_from_scene_def seq_cache_get_ex_def BLI_ghash_lookup_def)

text \<open>
  Let the lookup of the table find an entry with an image \<open>b\<close> for the key of the store
  (the key \<open>seq_cache_populate_key\<close> builds for the context, strip, frame and stage of
  the call, after a prefetch context and strip were replaced by the original ones, and
  with a context that does not skip the cache): the entry is in the bucket of the key's
  hash and its key is equal to the key. Then the fetch \<open>seq_cache_put\<close> starts with
  returns \<open>b\<close> with one more reference, and \<open>seq_cache_put\<close> returns the scene it got:
  the table is as it was, so no second entry is stored and \<open>b\<close> is still the image under
  the key, and the reference counts are as they were, so the reference the fetch took was
  given back.
\<close>

lemma seq_cache_put_duplicate_noop:
  assumes so: "(if is_prefetch_render context then seq_prefetch_original_strip_get co (Some s) else Some s) = Some st"
    and ctx: "ctx = (if is_prefetch_render context then seq_prefetch_original_context_get co context else context)"
    and fl: "\<not> is_prefetch_render ctx" "\<not> skip_cache ctx" "\<not> is_proxy_render ctx"
    and c: "ed_cache sc = Some c"
    and e: "ghash_lookup_entry co (hash c) (seq_cache_populate_key co sc ctx st tf ty) = Some e"
    and b: "ibuf (snd (snd e)) = Some b"
  shows "seq_cache_get co sc new_key ctx (Some st) tf ty = Some (Inr (IMB_refImBuf sc b, Some b)) \<and>
         seq_cache_put co sc new_key context (Some s) tf ty i = Some (Inr sc)"
proof -
  have g: "seq_cache_get co sc new_key ctx (Some st) tf ty = Some (Inr (IMB_refImBuf sc b, Some b))"
    by (rule seq_cache_get_hit [OF fl c e b])
  have "seq_cache_put co sc new_key context (Some s) tf ty i = Some (Inr sc)"
  proof (cases "i = None \<or> skip_cache context \<or> is_proxy_render context")
    case True
    then show ?thesis by (auto simp: seq_cache_put_def)
  next
    case False
    then show ?thesis
      using so g ctx by (simp add: seq_cache_put_def ref_then_free)
  qed
  with g show ?thesis by simp
qed


text \<open>The scene after one store into the empty cache, of an image 50 under a key with stage
  \<open>ty\<close> and frame index \<open>fi\<close>.\<close>

definition ex_scene_one :: "32 word \<Rightarrow> float32 \<Rightarrow> Scene" where
  "ex_scene_one ty fi =
     (ex_scene \<lparr>hash = [(100, (ex_key fi ty)\<lparr>is_temp_cache := False\<rparr>, ex_item 50)],
                last_key = Some 100\<rparr>)\<lparr>ibufs := (\<lambda>b. Some 1)(50 := Some (Suc 1))\<rparr>"

lemma ex_first_store_preprocessed:
  "seq_cache_put ex_collab ex_empty_scene 100 ex_context (Some 7) 0x40A00000 2 (Some 50) =
     Some (Inr (ex_scene_one 2 0x40A00000))"
  by (simp add: ex_eval ex_eval_put f32_eval ex_scene_one_def ex_key_def ex_item_def)

lemma ex_first_store_raw:
  "seq_cache_put ex_collab ex_empty_scene 100 ex_context (Some 7) 0x40A00000 1 (Some 50) =
     Some (Inr (ex_scene_one 1 0))"
  by (simp add: ex_eval ex_eval_put f32_eval ex_scene_one_def ex_key_def ex_item_def)

text \<open>A second store at the same frame: the key is the same bit for bit, the lookup finds
  the first entry, and the store is dropped.\<close>

lemma seq_cache_put_same_frame_twice:
  "seq_cache_put ex_collab ex_empty_scene 100 ex_context (Some 7) 0x40A00000 2 (Some 50) =
     Some (Inr (ex_scene_one 2 0x40A00000)) \<and>
   seq_cache_get ex_collab (ex_scene_one 2 0x40A00000) 101 ex_context (Some 7) 0x40A00000 2 =
     Some (Inr (IMB_refImBuf (ex_scene_one 2 0x40A00000) 50, Some 50)) \<and>
   seq_cache_put ex_collab (ex_scene_one 2 0x40A00000) 101 ex_context (Some 7) 0x40A00000 2 (Some 51) =
     Some (Inr (ex_scene_one 2 0x40A00000))"
proof -
  let ?c = "\<lparr>hash = [(100, (ex_key 0x40A00000 2)\<lparr>is_temp_cache := False\<rparr>, ex_item 50)], last_key = Some 100\<rparr>"
  have so: "(if is_prefetch_render ex_context then seq_prefetch_original_strip_get ex_collab (Some 7) else Some 7) = Some 7"
    by (simp add: ex_context_def)
  have ctx: "ex_context = (if is_prefetch_render ex_context
      then seq_prefetch_original_context_get ex_collab ex_context else ex_context)"
    by (simp add: ex_context_def)
  have fl: "\<not> is_prefetch_render ex_context" "\<not> skip_cache ex_context" "\<not> is_proxy_render ex_context"
    by (simp_all add: ex_context_def)
  have c: "ed_cache (ex_scene_one 2 0x40A00000) = Some ?c"
    by (simp add: ex_scene_one_def ex_scene_def)
  have e: "ghash_lookup_entry ex_collab (hash ?c)
      (seq_cache_populate_key ex_collab (ex_scene_one 2 0x40A00000) ex_context 7 0x40A00000 2) =
      Some (100, (ex_key 0x40A00000 2)\<lparr>is_temp_cache := False\<rparr>, ex_item 50)"
    by (simp add: ex_eval ex_eval_put f32_eval ex_scene_one_def ex_key_def)
  have b: "ibuf (snd (snd (100::nat, (ex_key 0x40A00000 2)\<lparr>is_temp_cache := False\<rparr>, ex_item 50))) = Some 50"
    by (simp add: ex_item_def)
  from seq_cache_put_duplicate_noop [OF so ctx fl c e b, of 101 "Some 51"] ex_first_store_preprocessed
  show ?thesis by simp
qed

text \<open>
  C3 fails for two keys that are equal for \<open>seq_cache_hashcmp\<close> and have different
  hashes. The first store, at the timeline frame +0.0 with stage Preprocessed, puts image
  50 under a key with frame index +0.0. The key of a second store at the timeline frame
  -0.0 (\<open>0x80000000\<close>) has frame index -0.0 and is equal to the first key, but its hash
  differs in the sign bit and falls into another of the 5 buckets: the fetch of
  \<open>seq_cache_put\<close> misses, and the second store inserts image 51 as a second entry under
  an equal key.
\<close>

theorem put_duplicate_signed_zero:
  "seq_cache_put ex_collab ex_empty_scene 100 ex_context (Some 7) 0 2 (Some 50) =
     Some (Inr (ex_scene_one 2 0)) \<and>
   \<not> seq_cache_hashcmp ex_collab
       (seq_cache_populate_key ex_collab (ex_scene_one 2 0) ex_context 7 0x80000000 2)
       ((ex_key 0 2)\<lparr>is_temp_cache := False\<rparr>) \<and>
   seq_cache_get ex_collab (ex_scene_one 2 0) 101 ex_context (Some 7) 0x80000000 2 =
     Some (Inr (ex_scene_one 2 0, None)) \<and>
   (case seq_cache_put ex_collab (ex_scene_one 2 0) 101 ex_context (Some 7) 0x80000000 2 (Some 51) of
      Some (Inr sc2) \<Rightarrow>
        map (\<lambda>e. (fst e, frame_index (fst (snd e)), ibuf (snd (snd e)))) (cache_hash sc2)
    | _ \<Rightarrow> []) =
     [(100, 0, Some 50), (101, 0x80000000, Some 51)]"
  by (simp add: ex_eval ex_eval_put f32_eval ex_scene_one_def ex_key_def ex_item_def)

theorem put_duplicate_signed_zero_witness:
  "seq_cache_get ex_collab (ex_scene_one 2 0) 101 ex_context (Some 7) 0x80000000 2 =
     Some (Inr (ex_scene_one 2 0, None))"
  using put_duplicate_signed_zero by simp

subsection \<open>The frame index of a key\<close>

text \<open>
  C7 (as amended). The frame index of a key is the media-relative frame
  (\<^verbatim>\<open>give_frame_index\<close>) for stage Raw on a strip that is not an effect strip; for an
  effect strip, and for every other stage, it is the timeline frame minus the start frame
  of the strip. On a strip that is not an effect strip, a store with stage Raw at a
  timeline frame \<open>tf2\<close> that maps to the same media-relative frame as \<open>tf1\<close>, while the
  table holds an image under the key of \<open>tf1\<close>, builds the same key and returns the scene
  it got.
\<close>

theorem raw_frame_index_dedup:
  assumes same: "give_frame_index co sc (strips sc st) tf1 = give_frame_index co sc (strips sc st) tf2"
    and so: "(if is_prefetch_render context then seq_prefetch_original_strip_get co (Some s) else Some s) = Some st"
    and ctx: "ctx = (if is_prefetch_render context then seq_prefetch_original_context_get co context else context)"
    and fl: "\<not> is_prefetch_render ctx" "\<not> skip_cache ctx" "\<not> is_proxy_render ctx"
    and c: "ed_cache sc = Some c"
    and e: "ghash_lookup_entry co (hash c) (seq_cache_populate_key co sc ctx st tf1 SEQ_CACHE_STORE_RAW) = Some e"
    and b: "ibuf (snd (snd e)) = Some b"
  shows "seq_cache_timeline_frame_to_frame_index co sc st tf ty =
           (if strip_type (strips sc st) AND STRIP_TYPE_EFFECT = 0 \<and> ty = SEQ_CACHE_STORE_RAW
            then give_frame_index co sc (strips sc st) tf
            else f32_sub tf (time_start_frame_get sc st)) \<and>
         (strip_type (strips sc st) AND STRIP_TYPE_EFFECT = 0 \<longrightarrow>
          seq_cache_populate_key co sc ctx st tf2 SEQ_CACHE_STORE_RAW =
            seq_cache_populate_key co sc ctx st tf1 SEQ_CACHE_STORE_RAW \<and>
          seq_cache_put co sc new_key context (Some s) tf2 SEQ_CACHE_STORE_RAW i = Some (Inr sc))"
proof (intro conjI impI)
  show "seq_cache_timeline_frame_to_frame_index co sc st tf ty =
           (if strip_type (strips sc st) AND STRIP_TYPE_EFFECT = 0 \<and> ty = SEQ_CACHE_STORE_RAW
            then give_frame_index co sc (strips sc st) tf
            else f32_sub tf (time_start_frame_get sc st))"
    by (simp add: seq_cache_timeline_frame_to_frame_index_def)
next
  assume ne: "strip_type (strips sc st) AND STRIP_TYPE_EFFECT = 0"
  show k: "seq_cache_populate_key co sc ctx st tf2 SEQ_CACHE_STORE_RAW =
           seq_cache_populate_key co sc ctx st tf1 SEQ_CACHE_STORE_RAW"
    using ne same by (simp add: seq_cache_populate_key_def seq_cache_timeline_frame_to_frame_index_def)
  have e2: "ghash_lookup_entry co (hash c) (seq_cache_populate_key co sc ctx st tf2 SEQ_CACHE_STORE_RAW) = Some e"
    using e k by simp
  show "seq_cache_put co sc new_key context (Some s) tf2 SEQ_CACHE_STORE_RAW i = Some (Inr sc)"
  proof (cases "i = None \<or> skip_cache context \<or> is_proxy_render context")
    case True
    then show ?thesis by (auto simp: seq_cache_put_def)
  next
    case False
    have "seq_cache_get co sc new_key ctx (Some st) tf2 SEQ_CACHE_STORE_RAW =
        Some (Inr (IMB_refImBuf sc b, Some b))"
      by (rule seq_cache_get_hit [OF fl c e2 b])
    with False so ctx show ?thesis by (simp add: seq_cache_put_def ref_then_free)
  qed
qed

theorem raw_frame_index_dedup_witness:
  "seq_cache_put ex_collab ex_empty_scene 100 ex_context (Some 7) 0x40A00000 1 (Some 50) =
     Some (Inr (ex_scene_one 1 0)) \<and>
   seq_cache_populate_key ex_collab (ex_scene_one 1 0) ex_context 7 0x40C00000 SEQ_CACHE_STORE_RAW =
     seq_cache_populate_key ex_collab (ex_scene_one 1 0) ex_context 7 0x40A00000 SEQ_CACHE_STORE_RAW \<and>
   seq_cache_put ex_collab (ex_scene_one 1 0) 101 ex_context (Some 7) 0x40C00000 SEQ_CACHE_STORE_RAW (Some 51) =
     Some (Inr (ex_scene_one 1 0))"
proof -
  let ?c = "\<lparr>hash = [(100, (ex_key 0 1)\<lparr>is_temp_cache := False\<rparr>, ex_item 50)], last_key = Some 100\<rparr>"
  have ne: "strip_type (strips (ex_scene_one 1 0) 7) AND STRIP_TYPE_EFFECT = 0"
    by (simp add: ex_scene_one_def ex_scene_def ex_strip_def)
  have same: "give_frame_index ex_collab (ex_scene_one 1 0) (strips (ex_scene_one 1 0) 7) 0x40A00000 =
      give_frame_index ex_collab (ex_scene_one 1 0) (strips (ex_scene_one 1 0) 7) 0x40C00000"
    by (simp add: ex_collab_def)
  have so: "(if is_prefetch_render ex_context then seq_prefetch_original_strip_get ex_collab (Some 7) else Some 7) = Some 7"
    by (simp add: ex_context_def)
  have ctx: "ex_context = (if is_prefetch_render ex_context
      then seq_prefetch_original_context_get ex_collab ex_context else ex_context)"
    by (simp add: ex_context_def)
  have fl: "\<not> is_prefetch_render ex_context" "\<not> skip_cache ex_context" "\<not> is_proxy_render ex_context"
    by (simp_all add: ex_context_def)
  have c: "ed_cache (ex_scene_one 1 0) = Some ?c"
    by (simp add: ex_scene_one_def ex_scene_def)
  have e: "ghash_lookup_entry ex_collab (hash ?c)
      (seq_cache_populate_key ex_collab (ex_scene_one 1 0) ex_context 7 0x40A00000 SEQ_CACHE_STORE_RAW) =
      Some (100, (ex_key 0 1)\<lparr>is_temp_cache := False\<rparr>, ex_item 50)"
    by (simp add: ex_eval ex_eval_put f32_eval ex_scene_one_def ex_key_def)
  have b: "ibuf (snd (snd (100::nat, (ex_key 0 1)\<lparr>is_temp_cache := False\<rparr>, ex_item 50))) = Some 50"
    by (simp add: ex_item_def)
  from raw_frame_index_dedup [OF same so ctx fl c e b, of 0 1 101 "Some 51"] ne ex_first_store_raw
  show ?thesis by simp
qed

text \<open>The empty scene with effect strips (\<^verbatim>\<open>STRIP_TYPE_EFFECT\<close> set in the strip type).\<close>

definition ex_effect_scene :: Scene where
  "ex_effect_scene = ex_empty_scene\<lparr>strips := (\<lambda>a. ex_strip\<lparr>strip_type := 8\<rparr>)\<rparr>"

text \<open>
  C7 as stated fails on an effect strip: the frame index of a Raw key at timeline frame 5
  is 5 (\<open>0x40A00000\<close>), not the media-relative frame 0, and two Raw stores at the frames 5
  and 6, which map to the same media-relative frame, are both inserted.
\<close>

theorem raw_frame_index_effect_strip:
  "seq_cache_timeline_frame_to_frame_index ex_collab ex_effect_scene 7 0x40A00000 SEQ_CACHE_STORE_RAW = 0x40A00000 \<and>
   give_frame_index ex_collab ex_effect_scene (strips ex_effect_scene 7) 0x40A00000 = 0 \<and>
   (case seq_cache_put ex_collab ex_effect_scene 100 ex_context (Some 7) 0x40A00000 SEQ_CACHE_STORE_RAW (Some 50) of
      Some (Inr sc1) \<Rightarrow>
        (case seq_cache_put ex_collab sc1 101 ex_context (Some 7) 0x40C00000 SEQ_CACHE_STORE_RAW (Some 51) of
           Some (Inr sc2) \<Rightarrow> map (\<lambda>e. (fst e, frame_index (fst (snd e)))) (cache_hash sc2)
         | _ \<Rightarrow> [])
    | _ \<Rightarrow> [])
   = [(100, 0x40A00000), (101, 0x40C00000)]"
  by (simp add: ex_effect_scene_def ex_eval ex_eval_put f32_eval)

subsection \<open>Unlinking and removing a key of a well-formed table\<close>

text \<open>What unlinking the key \<open>k\<close> does to an entry: the entry after \<open>k\<close> gets the
  \<open>link_prev\<close> of \<open>k\<close>, the entry before \<open>k\<close> gets the \<open>link_next\<close> of \<open>k\<close>.\<close>

definition relink :: "SeqCacheKey \<Rightarrow> entry \<Rightarrow> entry" where
  "relink k e =
     (let k1 = (if link_next k = Some (fst e) then (fst (snd e))\<lparr>link_prev := link_prev k\<rparr> else fst (snd e));
          k2 = (if link_prev k = Some (fst e) then k1\<lparr>link_next := link_next k\<rparr> else k1)
      in (fst e, k2, snd (snd e)))"

lemma key_update_map:
  "hash (key_update c a f) = map (\<lambda>e. if fst e = a then (fst e, f (fst (snd e)), snd (snd e)) else e) (hash c)"
  by (auto simp: key_update_def split: prod.splits)

lemma key_lookup_None_iff: "key_lookup es a = None \<longleftrightarrow> a \<notin> fst ` set es"
proof (induction es)
  case Nil
  then show ?case by simp
next
  case (Cons e es)
  obtain x kx ix where e: "e = (x, kx, ix)" by (cases e)
  from Cons show ?case by (cases "x = a") (simp_all add: e)
qed

lemma key_lookup_Some_iff:
  "distinct (map fst es) \<Longrightarrow> key_lookup es a = Some k \<longleftrightarrow> (\<exists>i. (a, k, i) \<in> set es)"
proof (induction es)
  case Nil
  then show ?case by simp
next
  case (Cons e es)
  obtain x kx ix where e: "e = (x, kx, ix)" by (cases e)
  show ?case
  proof (cases "x = a")
    case True
    with Cons.prems have "a \<notin> fst ` set es" by (simp add: e)
    then have "\<And>k' i'. (a, k', i') \<notin> set es" by force
    with True show ?thesis by (auto simp: e)
  next
    case False
    with Cons show ?thesis by (simp add: e)
  qed
qed

lemma unlink_result:
  assumes a: "key_lookup (hash c) a = Some k"
    and n: "\<And>n. link_next k = Some n \<Longrightarrow> n \<in> fst ` set (hash c)"
    and p: "\<And>p. link_prev k = Some p \<Longrightarrow> p \<in> fst ` set (hash c)"
  shows "seq_cache_key_unlink c a = Inr (c\<lparr>hash := map (relink k) (hash c)\<rparr>)"
proof -
  let ?u1 = "\<lambda>e. if link_next k = Some (fst e) then (fst e, (fst (snd e))\<lparr>link_prev := link_prev k\<rparr>, snd (snd e)) else e"
  let ?u2 = "\<lambda>e. if link_prev k = Some (fst e) then (fst e, (fst (snd e))\<lparr>link_next := link_next k\<rparr>, snd (snd e)) else e"
  let ?c1 = "c\<lparr>hash := map ?u1 (hash c)\<rparr>"
  have s1: "(case link_next k of None \<Rightarrow> Inr c
      | Some n \<Rightarrow> (case key_deref c (Some n) of Inl e \<Rightarrow> Inl e
           | Inr _ \<Rightarrow> Inr (key_update c n (\<lambda>k'. k'\<lparr>link_prev := link_prev k\<rparr>)))) = Inr ?c1"
  proof (cases "link_next k")
    case None
    then show ?thesis by (simp add: map_idI)
  next
    case (Some n')
    with n have "key_lookup (hash c) n' \<noteq> None" by (simp add: key_lookup_None_iff)
    then have "\<exists>kn. key_deref c (Some n') = Inr kn" by (auto simp: key_deref_def)
    moreover have "key_update c n' (\<lambda>k'. k'\<lparr>link_prev := link_prev k\<rparr>) = ?c1"
      using Some by (simp add: key_update_def split_def)
    ultimately show ?thesis using Some by auto
  qed
  have l1: "key_lookup (map ?u1 es) a = map_option (\<lambda>q. if link_next k = Some a then q\<lparr>link_prev := link_prev k\<rparr> else q) (key_lookup es a)" for es :: "entry list"
    by (induction es) auto
  have a1: "key_deref ?c1 (Some a) = Inr k"
    using a by (auto simp: key_deref_def l1)
  have f1: "fst ` set (map ?u1 es) = fst ` set es" for es :: "entry list"
    by (induction es) auto
  have s2: "(case link_prev k of None \<Rightarrow> Inr ?c1
      | Some p \<Rightarrow> (case key_deref ?c1 (Some p) of Inl e \<Rightarrow> Inl e
           | Inr _ \<Rightarrow> Inr (key_update ?c1 p (\<lambda>k'. k'\<lparr>link_next := link_next k\<rparr>)))) = Inr (c\<lparr>hash := map ?u2 (map ?u1 (hash c))\<rparr>)"
  proof (cases "link_prev k")
    case None
    then show ?thesis by (simp add: map_idI)
  next
    case (Some p')
    from p [OF Some] have "p' \<in> fst ` set (hash c)" .
    then have "p' \<in> fst ` set (map ?u1 (hash c))" by (simp only: f1)
    then have "key_lookup (hash ?c1) p' \<noteq> None" by (simp add: key_lookup_None_iff del: set_map)
    then have "\<exists>kn. key_deref ?c1 (Some p') = Inr kn" by (auto simp: key_deref_def)
    moreover have "key_update ?c1 p' (\<lambda>k'. k'\<lparr>link_next := link_next k\<rparr>) = c\<lparr>hash := map ?u2 (map ?u1 (hash c))\<rparr>"
      using Some by (simp add: key_update_def split_def)
    ultimately show ?thesis using Some by auto
  qed
  have m: "map ?u2 (map ?u1 es) = map (relink k) es" for es :: "entry list"
    by (induction es) (auto simp: relink_def Let_def)
  have d: "key_deref c (Some a) = Inr k" using a by (simp add: key_deref_def)
  show ?thesis
    unfolding seq_cache_key_unlink_def by (simp only: d s1 a1 s2 m sum.case)
qed


text \<open>The same on the key of the entry at address \<open>x\<close>.\<close>

definition relink_key :: "SeqCacheKey \<Rightarrow> addr \<Rightarrow> SeqCacheKey \<Rightarrow> SeqCacheKey" where
  "relink_key k x kx =
     (let k1 = (if link_next k = Some x then kx\<lparr>link_prev := link_prev k\<rparr> else kx)
      in if link_prev k = Some x then k1\<lparr>link_next := link_next k\<rparr> else k1)"

lemma relink_eq: "relink k e = (fst e, relink_key k (fst e) (fst (snd e)), snd (snd e))"
  by (simp add: relink_def relink_key_def Let_def)

text \<open>The links are those of doubly linked lists: what a key links to is a live key that
  links back.\<close>

definition chain_ok_map :: "(addr \<Rightarrow> SeqCacheKey option) \<Rightarrow> bool" where
  "chain_ok_map m =
     (\<forall>x kx. m x = Some kx \<longrightarrow>
        (\<forall>n. link_next kx = Some n \<longrightarrow> (\<exists>kn. m n = Some kn \<and> link_prev kn = Some x)) \<and>
        (\<forall>p. link_prev kx = Some p \<longrightarrow> (\<exists>kp. m p = Some kp \<and> link_next kp = Some x)))"

lemma link_next_relink:
  "link_next (relink_key k x kx) = (if link_prev k = Some x then link_next k else link_next kx)"
  by (simp add: relink_key_def Let_def)

lemma link_prev_relink:
  "link_prev (relink_key k x kx) = (if link_next k = Some x then link_prev k else link_prev kx)"
  by (simp add: relink_key_def Let_def)

lemma chain_ok_map_remove:
  assumes ok: "chain_ok_map m" and a: "m a = Some k"
  shows "chain_ok_map (\<lambda>x. if x = a then None else map_option (relink_key k x) (m x))"
  unfolding chain_ok_map_def
proof (intro allI impI conjI)
  fix x kx' n
  assume x: "(if x = a then None else map_option (relink_key k x) (m x)) = Some kx'"
    and n: "link_next kx' = Some n"
  from x obtain kx where xa: "x \<noteq> a" and mx: "m x = Some kx" and kx': "kx' = relink_key k x kx"
    by (auto split: if_splits)
  show "\<exists>kn. (if n = a then None else map_option (relink_key k n) (m n)) = Some kn \<and> link_prev kn = Some x"
  proof (cases "link_prev k = Some x")
    case True
    with n kx' have kn: "link_next k = Some n" by (simp add: link_next_relink)
    from ok a kn obtain kn' where mn: "m n = Some kn'" and "link_prev kn' = Some a"
      unfolding chain_ok_map_def by blast
    have "n \<noteq> a"
    proof
      assume "n = a"
      with mn a \<open>link_prev kn' = Some a\<close> have "link_prev k = Some a" by simp
      with True xa show False by simp
    qed
    with mn kn True show ?thesis by (simp add: link_prev_relink)
  next
    case False
    with n kx' have kn: "link_next kx = Some n" by (simp add: link_next_relink)
    from ok mx kn obtain kn' where mn: "m n = Some kn'" and pn: "link_prev kn' = Some x"
      unfolding chain_ok_map_def by blast
    have na: "n \<noteq> a"
    proof
      assume "n = a"
      with mn a pn have "link_prev k = Some x" by simp
      with False show False by simp
    qed
    have "link_next k \<noteq> Some n"
    proof
      assume "link_next k = Some n"
      with ok a obtain kn'' where "m n = Some kn''" "link_prev kn'' = Some a"
        unfolding chain_ok_map_def by blast
      with mn pn xa show False by simp
    qed
    with mn pn na show ?thesis by (simp add: link_prev_relink)
  qed
next
  fix x kx' p
  assume x: "(if x = a then None else map_option (relink_key k x) (m x)) = Some kx'"
    and p: "link_prev kx' = Some p"
  from x obtain kx where xa: "x \<noteq> a" and mx: "m x = Some kx" and kx': "kx' = relink_key k x kx"
    by (auto split: if_splits)
  show "\<exists>kp. (if p = a then None else map_option (relink_key k p) (m p)) = Some kp \<and> link_next kp = Some x"
  proof (cases "link_next k = Some x")
    case True
    with p kx' have kp: "link_prev k = Some p" by (simp add: link_prev_relink)
    from ok a kp obtain kp' where mp: "m p = Some kp'" and "link_next kp' = Some a"
      unfolding chain_ok_map_def by blast
    have "p \<noteq> a"
    proof
      assume "p = a"
      with mp a \<open>link_next kp' = Some a\<close> have "link_next k = Some a" by simp
      with True xa show False by simp
    qed
    with mp kp True show ?thesis by (simp add: link_next_relink)
  next
    case False
    with p kx' have kp: "link_prev kx = Some p" by (simp add: link_prev_relink)
    from ok mx kp obtain kp' where mp: "m p = Some kp'" and np: "link_next kp' = Some x"
      unfolding chain_ok_map_def by blast
    have pa: "p \<noteq> a"
    proof
      assume "p = a"
      with mp a np have "link_next k = Some x" by simp
      with False show False by simp
    qed
    have "link_prev k \<noteq> Some p"
    proof
      assume "link_prev k = Some p"
      with ok a obtain kp'' where "m p = Some kp''" "link_next kp'' = Some a"
        unfolding chain_ok_map_def by blast
      with mp np xa show False by simp
    qed
    with mp np pa show ?thesis by (simp add: link_next_relink)
  qed
qed


text \<open>Two keys agree in the fields the table compares.\<close>

definition same_key :: "SeqCacheKey \<Rightarrow> SeqCacheKey \<Rightarrow> bool" where
  "same_key k k' = (strip k = strip k' \<and> context' k = context' k' \<and>
     frame_index k = frame_index k' \<and> type k = type k')"

lemma same_key_refl [simp]: "same_key k k"
  by (simp add: same_key_def)

lemma same_key_relink [simp]: "same_key (relink_key k x kx) kx"
  by (simp add: same_key_def relink_key_def Let_def)

lemma hashcmp_same_key:
  "same_key a a' \<Longrightarrow> same_key b b' \<Longrightarrow> seq_cache_hashcmp co a b = seq_cache_hashcmp co a' b'"
  by (simp add: same_key_def seq_cache_hashcmp_def)

lemma frame_same_key:
  "same_key k k' \<Longrightarrow> seq_cache_key_timeline_frame_get sc k = seq_cache_key_timeline_frame_get sc k'"
  by (simp add: same_key_def seq_cache_key_timeline_frame_get_def)

text \<open>A well-formed table: no address twice, every key equal to itself (no NaN in it) and
  different from every other key, and the links those of doubly linked lists.\<close>

definition table_ok :: "Collab \<Rightarrow> entry list \<Rightarrow> bool" where
  "table_ok co es =
     (distinct (map fst es) \<and>
      (\<forall>e\<in>set es. \<not> seq_cache_hashcmp co (fst (snd e)) (fst (snd e))) \<and>
      (\<forall>e\<in>set es. \<forall>e'\<in>set es. fst e \<noteq> fst e' \<longrightarrow> seq_cache_hashcmp co (fst (snd e)) (fst (snd e'))) \<and>
      chain_ok_map (key_lookup es))"

lemma key_lookup_removed:
  "key_lookup (filter (\<lambda>e. fst e \<noteq> a) (map (relink k) es)) x =
     (if x = a then None else map_option (relink_key k x) (key_lookup es x))"
proof (induction es)
  case Nil
  then show ?case by simp
next
  case (Cons e es)
  obtain y ky iy where e: "e = (y, ky, iy)" by (cases e)
  from Cons show ?case by (cases "y = a"; cases "y = x") (simp_all add: e relink_eq)
qed

lemma fst_relink [simp]: "fst (relink k e) = fst e"
  by (simp add: relink_eq)

lemma map_fst_relink: "map fst (map (relink k) es) = map fst es"
  by (induction es) simp_all

lemma distinct_removed:
  "distinct (map fst es) \<Longrightarrow> distinct (map fst (filter (\<lambda>e. fst e \<noteq> a) (map (relink k) es)))"
  using distinct_map_filter [of fst "map (relink k) es" "\<lambda>e. fst e \<noteq> a"]
  by (simp only: map_fst_relink)

lemma table_ok_remove:
  assumes ok: "table_ok co es" and a: "key_lookup es a = Some k"
  shows "table_ok co (filter (\<lambda>e. fst e \<noteq> a) (map (relink k) es))"
proof -
  let ?es = "filter (\<lambda>e. fst e \<noteq> a) (map (relink k) es)"
  have d: "distinct (map fst ?es)" using ok by (simp add: table_ok_def distinct_removed)
  have in_old: "\<exists>e0\<in>set es. fst e0 = fst e \<and> same_key (fst (snd e)) (fst (snd e0))" if "e \<in> set ?es" for e
  proof -
    from that obtain e0 where "e0 \<in> set es" "e = relink k e0" by auto
    then show ?thesis by (intro bexI [of _ e0]) (simp_all add: relink_eq)
  qed
  have s: "\<forall>e\<in>set ?es. \<not> seq_cache_hashcmp co (fst (snd e)) (fst (snd e))"
  proof
    fix e assume "e \<in> set ?es"
    from in_old [OF this] obtain e0 where e0: "e0 \<in> set es" "same_key (fst (snd e)) (fst (snd e0))" by blast
    with ok have "\<not> seq_cache_hashcmp co (fst (snd e0)) (fst (snd e0))" by (simp add: table_ok_def)
    with hashcmp_same_key [OF e0(2) e0(2)] show "\<not> seq_cache_hashcmp co (fst (snd e)) (fst (snd e))" by simp
  qed
  have u: "\<forall>e\<in>set ?es. \<forall>e'\<in>set ?es. fst e \<noteq> fst e' \<longrightarrow> seq_cache_hashcmp co (fst (snd e)) (fst (snd e'))"
  proof (intro ballI impI)
    fix e e' assume e: "e \<in> set ?es" and e': "e' \<in> set ?es" and ne: "fst e \<noteq> fst e'"
    from in_old [OF e] obtain e0 where e0: "e0 \<in> set es" "fst e0 = fst e" "same_key (fst (snd e)) (fst (snd e0))" by blast
    from in_old [OF e'] obtain e1 where e1: "e1 \<in> set es" "fst e1 = fst e'" "same_key (fst (snd e')) (fst (snd e1))" by blast
    from ok e0 e1 ne have "seq_cache_hashcmp co (fst (snd e0)) (fst (snd e1))" by (simp add: table_ok_def)
    with hashcmp_same_key [OF e0(3) e1(3)] show "seq_cache_hashcmp co (fst (snd e)) (fst (snd e'))" by simp
  qed
  have c: "chain_ok_map (key_lookup ?es)"
  proof -
    have "key_lookup ?es = (\<lambda>x. if x = a then None else map_option (relink_key k x) (key_lookup es x))"
      by (rule ext) (rule key_lookup_removed)
    with chain_ok_map_remove [of "key_lookup es" a k] ok a show ?thesis by (simp add: table_ok_def)
  qed
  from d s u c show ?thesis unfolding table_ok_def by blast
qed

lemma hashhash_same_key: "same_key k k' \<Longrightarrow> seq_cache_hashhash co k = seq_cache_hashhash co k'"
  by (simp add: same_key_def seq_cache_hashhash_def Let_def cong: sum.case_cong)

lemma bucket_remove_unique:
  assumes "distinct (map fst es)" and "(a, k', i) \<in> set es" and "\<not> seq_cache_hashcmp co k k'"
    and "seq_cache_hashhash co k' = seq_cache_hashhash co k"
    and "\<forall>e\<in>set es. fst e \<noteq> a \<longrightarrow> seq_cache_hashcmp co k (fst (snd e))"
  shows "bucket_remove co n es k = filter (\<lambda>e. fst e \<noteq> a) es \<and>
         bucket_lookup co n es k = Some (a, k', i)"
  using assms
proof (induction es)
  case Nil
  then show ?case by simp
next
  case (Cons e es)
  have m: "ghash_match co n k (a, k', i)"
    using Cons.prems(3,4) by (simp add: ghash_match_def ghash_bucket_index_def)
  show ?case
  proof (cases "e = (a, k', i)")
    case True
    with Cons.prems(1) have "\<forall>e'\<in>set es. fst e' \<noteq> a" by force
    then have "filter (\<lambda>e. fst e \<noteq> a) es = es" by (simp add: filter_id_conv)
    with True m show ?thesis by simp
  next
    case False
    with Cons.prems have in': "(a, k', i) \<in> set es" by simp
    from Cons.prems(1) have "fst e \<notin> fst ` set es" by simp
    moreover from in' have "a \<in> fst ` set es" by (rule rev_image_eqI) simp
    ultimately have "fst e \<noteq> a" by blast
    with Cons.prems(5) have "seq_cache_hashcmp co k (fst (snd e))" by simp
    then have nm: "\<not> ghash_match co n k e" by (simp add: ghash_match_def)
    from Cons.IH [OF _ in' Cons.prems(3,4)] Cons.prems(1,5)
    have "bucket_remove co n es k = filter (\<lambda>e. fst e \<noteq> a) es \<and>
         bucket_lookup co n es k = Some (a, k', i)" by simp
    with nm show ?thesis using \<open>fst e \<noteq> a\<close> by simp
  qed
qed

lemma remove_entry_unique:
  assumes "distinct (map fst es)" and "(a, k', i) \<in> set es" and "\<not> seq_cache_hashcmp co k k'"
    and "seq_cache_hashhash co k' = seq_cache_hashhash co k"
    and "\<forall>e\<in>set es. fst e \<noteq> a \<longrightarrow> seq_cache_hashcmp co k (fst (snd e))"
  shows "ghash_remove_entry co es k = filter (\<lambda>e. fst e \<noteq> a) es \<and>
         ghash_lookup_entry co es k = Some (a, k', i)"
  using bucket_remove_unique [OF assms] by (simp add: ghash_remove_entry_def ghash_lookup_entry_def)

lemma unlink_and_remove_result:
  assumes ok: "table_ok co (hash c)" and a: "(a, k, i) \<in> set (hash c)" and kv: "same_key kv k"
  shows "unlink_and_remove co sc c a kv =
     Inr (seq_cache_valfree
           (sc\<lparr>ed_cache := Some (c\<lparr>hash := filter (\<lambda>e. fst e \<noteq> a) (map (relink k) (hash c))\<rparr>)\<rparr>) i)"
proof -
  from ok have d: "distinct (map fst (hash c))" by (simp add: table_ok_def)
  with a have l: "key_lookup (hash c) a = Some k" by (auto simp: key_lookup_Some_iff)
  from ok have ch: "chain_ok_map (key_lookup (hash c))" by (simp add: table_ok_def)
  have n: "n \<in> fst ` set (hash c)" if "link_next k = Some n" for n
  proof -
    from ch l that have "key_lookup (hash c) n \<noteq> None" unfolding chain_ok_map_def by fastforce
    then show ?thesis by (simp add: key_lookup_None_iff)
  qed
  have p: "p \<in> fst ` set (hash c)" if "link_prev k = Some p" for p
  proof -
    from ch l that have "key_lookup (hash c) p \<noteq> None" unfolding chain_ok_map_def by fastforce
    then show ?thesis by (simp add: key_lookup_None_iff)
  qed
  have u: "seq_cache_key_unlink c a = Inr (c\<lparr>hash := map (relink k) (hash c)\<rparr>)"
    by (rule unlink_result [OF l n p])
  let ?es = "map (relink k) (hash c)"
  have d': "distinct (map fst ?es)" using d by (simp only: map_fst_relink)
  have a': "(a, relink_key k a k, i) \<in> set ?es"
    using a by (force simp: relink_eq)
  have eq: "\<not> seq_cache_hashcmp co kv (relink_key k a k)"
  proof -
    from ok a have "\<not> seq_cache_hashcmp co k k" by (force simp: table_ok_def)
    with hashcmp_same_key [OF kv same_key_relink, of co k a k] show ?thesis by simp
  qed
  have ne: "\<forall>e\<in>set ?es. fst e \<noteq> a \<longrightarrow> seq_cache_hashcmp co kv (fst (snd e))"
  proof (intro ballI impI)
    fix e assume "e \<in> set ?es" and na: "fst e \<noteq> a"
    then obtain e0 where e0: "e0 \<in> set (hash c)" "e = relink k e0" by auto
    with na have "fst e0 \<noteq> a" by (simp add: relink_eq)
    with ok a e0(1) have "seq_cache_hashcmp co k (fst (snd e0))" by (force simp: table_ok_def)
    with hashcmp_same_key [OF kv, of "fst (snd e)" "fst (snd e0)" co] e0(2)
    show "seq_cache_hashcmp co kv (fst (snd e))" by (simp add: relink_eq)
  qed
  have hh: "seq_cache_hashhash co (relink_key k a k) = seq_cache_hashhash co kv"
    using hashhash_same_key [OF same_key_relink, of co k a k] hashhash_same_key [OF kv, of co] by simp
  from remove_entry_unique [OF d' a' eq hh ne]
  show ?thesis by (simp add: unlink_and_remove_def u BLI_ghash_remove_def)
qed


text \<open>An entry without its links: the address, the key up to \<open>link_prev\<close> and
  \<open>link_next\<close>, and the item.\<close>

definition unlinked :: "entry \<Rightarrow> entry" where
  "unlinked e = (fst e, (fst (snd e))\<lparr>link_prev := None, link_next := None\<rparr>, snd (snd e))"

lemma unlinked_relink [simp]: "unlinked (relink k e) = unlinked e"
  by (simp add: unlinked_def relink_def Let_def)

text \<open>The test of the loop in \<open>seq_cache_cleanup_strip\<close>, on a key with a timeline frame.\<close>

definition loop_matches ::
  "Scene \<Rightarrow> addr \<Rightarrow> addr \<Rightarrow> int \<Rightarrow> int \<Rightarrow> 32 word \<Rightarrow> 32 word \<Rightarrow> SeqCacheKey \<Rightarrow> bool" where
  "loop_matches sc s strip_changed range_start range_end invalidate_composite invalidate_source key =
     (case seq_cache_key_timeline_frame_get sc key of
        Inl e \<Rightarrow> False
      | Inr f \<Rightarrow>
          (type key AND invalidate_composite \<noteq> 0 \<and> range_start \<le> f \<and> f \<le> range_end) \<or>
          (type key AND invalidate_source \<noteq> 0 \<and> strip key = s \<and>
           left_handle (strips sc strip_changed) \<le> f \<and> f \<le> right_handle (strips sc strip_changed)))"

lemma loop_matches_same_key:
  "same_key k k' \<Longrightarrow> loop_matches sc s chg rs re ic isrc k = loop_matches sc s chg rs re ic isrc k'"
  by (auto simp: loop_matches_def frame_same_key [of k k'] same_key_def split: sum.splits)

lemma frame_strips:
  "strips sc' = strips sc \<Longrightarrow> seq_cache_key_timeline_frame_get sc' k = seq_cache_key_timeline_frame_get sc k"
  by (simp add: seq_cache_key_timeline_frame_get_def time_start_frame_get_def)

lemma loop_matches_strips:
  "strips sc' = strips sc \<Longrightarrow> loop_matches sc' s chg rs re ic isrc k = loop_matches sc s chg rs re ic isrc k"
  by (simp add: loop_matches_def frame_strips [of sc' sc] cong: sum.case_cong)

lemma strips_valfree [simp]: "strips (seq_cache_valfree sc i) = strips sc"
  by (simp add: seq_cache_valfree_def IMB_freeImBuf_def split: option.splits)

lemma ed_cache_valfree [simp]: "ed_cache (seq_cache_valfree sc i) = ed_cache sc"
  by (simp add: seq_cache_valfree_def IMB_freeImBuf_def split: option.splits)

lemma map_unlinked_filter_relink:
  assumes "\<And>e. Q (relink k e) = Q e"
  shows "map unlinked (filter Q (map (relink k) es)) = map unlinked (filter Q es)"
  using assms by (induction es) simp_all

lemma cleanup_loop_step:
  "cleanup_strip_loop co sc s chg rs re ic isrc (e # es) =
     (case ed_cache sc of
        None \<Rightarrow> Inl NullDeref
      | Some cache \<Rightarrow>
          (case seq_cache_key_timeline_frame_get sc (fst (snd e)) of
             Inl err \<Rightarrow> Inl err
           | Inr f \<Rightarrow>
               if loop_matches sc s chg rs re ic isrc (fst (snd e))
               then (case unlink_and_remove co sc cache (fst e) (fst (snd e)) of
                       Inl err \<Rightarrow> Inl err
                     | Inr sc' \<Rightarrow> cleanup_strip_loop co sc' s chg rs re ic isrc es)
               else cleanup_strip_loop co sc s chg rs re ic isrc es))"
proof (cases "ed_cache sc")
  case None
  then show ?thesis by simp
next
  case (Some cache)
  show ?thesis
  proof (cases "seq_cache_key_timeline_frame_get sc (fst (snd e))")
    case (Inl err)
    with Some show ?thesis by simp
  next
    case (Inr f)
    with Some show ?thesis by (simp add: loop_matches_def Let_def)
  qed
qed

lemma cleanup_loop_result:
  assumes "ed_cache sc = Some c" and "table_ok co (hash c)" and "distinct (map fst es)"
    and "\<forall>e\<in>set es. \<exists>k. (fst e, k, snd (snd e)) \<in> set (hash c) \<and> same_key (fst (snd e)) k"
    and "frames_defined sc es"
  shows "\<exists>sc' c'. cleanup_strip_loop co sc s chg rs re ic isrc es = Inr sc' \<and>
           ed_cache sc' = Some c' \<and> table_ok co (hash c') \<and> last_key c' = last_key c \<and>
           strips sc' = strips sc \<and>
           map unlinked (hash c') =
             map unlinked (filter (\<lambda>e. \<not> (fst e \<in> fst ` set es \<and>
                 loop_matches sc s chg rs re ic isrc (fst (snd e)))) (hash c))"
  using assms
proof (induction es arbitrary: sc c)
  case Nil
  then show ?case by simp
next
  case (Cons e es)
  obtain a ks i0 where e: "e = (a, ks, i0)" by (cases e)
  from Cons.prems(4) e obtain k where k: "(a, k, i0) \<in> set (hash c)" and sk: "same_key ks k"
    by auto
  from Cons.prems(2) have d: "distinct (map fst (hash c))" by (simp add: table_ok_def)
  from Cons.prems(5) e obtain f where f: "seq_cache_key_timeline_frame_get sc ks = Inr f"
    and fr: "frames_defined sc es"
    by (auto simp: frames_defined_def)
  from Cons.prems(3) e have a_es: "a \<notin> fst ` set es" and des: "distinct (map fst es)" by simp_all
  have only_a: "e' = (a, k, i0)" if "e' \<in> set (hash c)" "fst e' = a" for e'
  proof -
    obtain a' k' i' where e': "e' = (a', k', i')" by (cases e')
    with that have "(a, k', i') \<in> set (hash c)" by simp
    with d k have "(k, i0) = (k', i')" by (rule eq_key_imp_eq_value)
    then show ?thesis using e' that by simp
  qed
  show ?case
  proof (cases "loop_matches sc s chg rs re ic isrc ks")
    case False
    from Cons.prems(4) have cur: "\<forall>e\<in>set es. \<exists>k. (fst e, k, snd (snd e)) \<in> set (hash c) \<and> same_key (fst (snd e)) k"
      by simp
    from Cons.IH [OF Cons.prems(1,2) des cur fr]
    obtain sc' c' where r: "cleanup_strip_loop co sc s chg rs re ic isrc es = Inr sc'"
      "ed_cache sc' = Some c'" "table_ok co (hash c')" "last_key c' = last_key c" "strips sc' = strips sc"
      "map unlinked (hash c') = map unlinked (filter (\<lambda>e. \<not> (fst e \<in> fst ` set es \<and>
                 loop_matches sc s chg rs re ic isrc (fst (snd e)))) (hash c))"
      by blast
    have "filter (\<lambda>e'. \<not> (fst e' \<in> fst ` set (e # es) \<and> loop_matches sc s chg rs re ic isrc (fst (snd e')))) (hash c)
        = filter (\<lambda>e'. \<not> (fst e' \<in> fst ` set es \<and> loop_matches sc s chg rs re ic isrc (fst (snd e')))) (hash c)"
    proof (rule filter_cong [OF refl])
      fix e' assume "e' \<in> set (hash c)"
      show "(\<not> (fst e' \<in> fst ` set (e # es) \<and> loop_matches sc s chg rs re ic isrc (fst (snd e')))) =
            (\<not> (fst e' \<in> fst ` set es \<and> loop_matches sc s chg rs re ic isrc (fst (snd e'))))"
      proof (cases "fst e' = a")
        case True
        with only_a [OF \<open>e' \<in> set (hash c)\<close>] have "e' = (a, k, i0)" by simp
        with False loop_matches_same_key [OF sk] a_es show ?thesis by (simp add: e)
      next
        case False
        then show ?thesis by (simp add: e)
      qed
    qed
    moreover have "cleanup_strip_loop co sc s chg rs re ic isrc (e # es) =
        cleanup_strip_loop co sc s chg rs re ic isrc es"
      using Cons.prems(1) f False by (simp add: cleanup_loop_step e del: cleanup_strip_loop.simps)
    ultimately show ?thesis using r by simp
  next
    case True
    let ?c1 = "c\<lparr>hash := filter (\<lambda>e. fst e \<noteq> a) (map (relink k) (hash c))\<rparr>"
    let ?sc1 = "seq_cache_valfree (sc\<lparr>ed_cache := Some ?c1\<rparr>) i0"
    have u: "unlink_and_remove co sc c a ks = Inr ?sc1"
      by (rule unlink_and_remove_result [OF Cons.prems(2) k sk])
    have l: "key_lookup (hash c) a = Some k" using d k by (auto simp: key_lookup_Some_iff)
    have c1: "ed_cache ?sc1 = Some ?c1" by simp
    have ok1: "table_ok co (hash ?c1)" using table_ok_remove [OF Cons.prems(2) l] by simp
    have st1: "strips ?sc1 = strips sc" by simp
    have cur1: "\<forall>e\<in>set es. \<exists>k'. (fst e, k', snd (snd e)) \<in> set (hash ?c1) \<and> same_key (fst (snd e)) k'"
    proof
      fix e' assume e': "e' \<in> set es"
      with Cons.prems(4) obtain k' where k': "(fst e', k', snd (snd e')) \<in> set (hash c)" "same_key (fst (snd e')) k'"
        by auto
      from e' a_es have ne: "fst e' \<noteq> a" by auto
      have "relink k (fst e', k', snd (snd e')) \<in> set (map (relink k) (hash c))"
        using k'(1) by (simp only: set_map) (rule imageI)
      then have "(fst e', relink_key k (fst e') k', snd (snd e')) \<in> set (hash ?c1)"
        using ne by (simp add: relink_eq)
      moreover have "same_key (fst (snd e')) (relink_key k (fst e') k')"
        using k'(2) by (simp add: same_key_def relink_key_def Let_def)
      ultimately show "\<exists>k'. (fst e', k', snd (snd e')) \<in> set (hash ?c1) \<and> same_key (fst (snd e')) k'"
        by blast
    qed
    have fr1: "frames_defined ?sc1 es"
      using fr by (simp add: frames_defined_def frame_strips [OF st1])
    from Cons.IH [OF c1 ok1 des cur1 fr1]
    obtain sc' c' where r: "cleanup_strip_loop co ?sc1 s chg rs re ic isrc es = Inr sc'"
      "ed_cache sc' = Some c'" "table_ok co (hash c')" "last_key c' = last_key ?c1" "strips sc' = strips ?sc1"
      "map unlinked (hash c') = map unlinked (filter (\<lambda>e. \<not> (fst e \<in> fst ` set es \<and>
                 loop_matches ?sc1 s chg rs re ic isrc (fst (snd e)))) (hash ?c1))"
      by blast
    let ?Q = "\<lambda>e'. fst e' \<noteq> a \<and> \<not> (fst e' \<in> fst ` set es \<and> loop_matches sc s chg rs re ic isrc (fst (snd e')))"
    have q: "?Q (relink k e') = ?Q e'" for e'
      using loop_matches_same_key [OF same_key_relink, of sc s chg rs re ic isrc k "fst e'" "fst (snd e')"]
      by (simp add: relink_eq)
    have "map unlinked (hash c') = map unlinked (filter ?Q (map (relink k) (hash c)))"
      using r(6) by (simp add: loop_matches_strips [OF st1])
    also have "\<dots> = map unlinked (filter ?Q (hash c))"
      by (rule map_unlinked_filter_relink) (rule q)
    also have "filter ?Q (hash c) =
        filter (\<lambda>e'. \<not> (fst e' \<in> fst ` set (e # es) \<and> loop_matches sc s chg rs re ic isrc (fst (snd e')))) (hash c)"
    proof (rule filter_cong [OF refl])
      fix e' assume "e' \<in> set (hash c)"
      show "?Q e' = (\<not> (fst e' \<in> fst ` set (e # es) \<and> loop_matches sc s chg rs re ic isrc (fst (snd e'))))"
      proof (cases "fst e' = a")
        case True
        with only_a [OF \<open>e' \<in> set (hash c)\<close>] have "e' = (a, k, i0)" by simp
        with \<open>loop_matches sc s chg rs re ic isrc ks\<close> loop_matches_same_key [OF sk] show ?thesis
          by (simp add: e)
      next
        case False
        then show ?thesis by (simp add: e)
      qed
    qed
    finally have m: "map unlinked (hash c') = map unlinked (filter (\<lambda>e'. \<not> (fst e' \<in> fst ` set (e # es) \<and>
        loop_matches sc s chg rs re ic isrc (fst (snd e')))) (hash c))" .
    have "cleanup_strip_loop co sc s chg rs re ic isrc (e # es) =
        cleanup_strip_loop co ?sc1 s chg rs re ic isrc es"
      using Cons.prems(1) f True u by (simp add: cleanup_loop_step e del: cleanup_strip_loop.simps)
    with r(1-5) m show ?thesis by simp
  qed
qed


subsection \<open>Invalidation\<close>

text \<open>
  What an invalidation without \<open>force_strip_changed_range\<close> removes, in the words of the
  amended claim: a key whose stage is FinalOutput, when the mask has it, with its timeline
  frame in the overlap of the handle ranges of \<open>strip\<close> and \<open>strip_changed\<close>; and a key of an
  intermediate stage in the mask that belongs to \<open>strip\<close>, with its timeline frame in the
  handle range of \<open>strip_changed\<close>.
\<close>

definition cleanup_matches :: "Scene \<Rightarrow> addr \<Rightarrow> addr \<Rightarrow> 32 word \<Rightarrow> SeqCacheKey \<Rightarrow> bool" where
  "cleanup_matches sc s strip_changed invalidate_types key =
     (case seq_cache_key_timeline_frame_get sc key of
        Inl e \<Rightarrow> False
      | Inr f \<Rightarrow>
          (type key AND (invalidate_types AND SEQ_CACHE_STORE_FINAL_OUT) \<noteq> 0 \<and>
           max (left_handle (strips sc strip_changed)) (left_handle (strips sc s)) \<le> f \<and>
           f \<le> min (right_handle (strips sc strip_changed)) (right_handle (strips sc s))) \<or>
          (type key AND (invalidate_types AND
             (SEQ_CACHE_STORE_RAW OR SEQ_CACHE_STORE_PREPROCESSED OR SEQ_CACHE_STORE_COMPOSITE)) \<noteq> 0 \<and>
           strip key = s \<and>
           left_handle (strips sc strip_changed) \<le> f \<and> f \<le> right_handle (strips sc strip_changed)))"

text \<open>
  C6 (as amended). On a well-formed table whose keys all have a timeline frame,
  \<open>seq_cache_cleanup_strip\<close> with \<open>force_strip_changed_range\<close> false returns; what is left
  in the table are exactly the entries that \<open>cleanup_matches\<close> does not hold for, in their
  order and with their keys (up to the links) and items; the table is well-formed again,
  and the chain tail is null.
\<close>

theorem cleanup_strip_removes_exactly:
  assumes c: "ed_cache sc = Some c" and ok: "table_ok co (hash c)" and fr: "frames_defined sc (hash c)"
  shows "\<exists>sc' c'. seq_cache_cleanup_strip co sc s strip_changed invalidate_types False = Inr sc' \<and>
           ed_cache sc' = Some c' \<and> last_key c' = None \<and> table_ok co (hash c') \<and>
           map unlinked (hash c') =
             map unlinked (filter (\<lambda>e. \<not> cleanup_matches sc s strip_changed invalidate_types (fst (snd e)))
                (hash c))"
proof -
  let ?rs = "max (left_handle (strips sc strip_changed)) (left_handle (strips sc s))"
  let ?re = "min (right_handle (strips sc strip_changed)) (right_handle (strips sc s))"
  let ?ic = "invalidate_types AND SEQ_CACHE_STORE_FINAL_OUT"
  let ?is = "invalidate_types AND
             (SEQ_CACHE_STORE_RAW OR SEQ_CACHE_STORE_PREPROCESSED OR SEQ_CACHE_STORE_COMPOSITE)"
  from ok have d: "distinct (map fst (hash c))" by (simp add: table_ok_def)
  have cur: "\<forall>e\<in>set (hash c). \<exists>k. (fst e, k, snd (snd e)) \<in> set (hash c) \<and> same_key (fst (snd e)) k"
  proof
    fix e assume "e \<in> set (hash c)"
    then have "(fst e, fst (snd e), snd (snd e)) \<in> set (hash c)" by simp
    then show "\<exists>k. (fst e, k, snd (snd e)) \<in> set (hash c) \<and> same_key (fst (snd e)) k"
      using same_key_refl by blast
  qed
  from cleanup_loop_result [OF c ok d cur fr, of s strip_changed ?rs ?re ?ic ?is]
  obtain sc1 c1 where r: "cleanup_strip_loop co sc s strip_changed ?rs ?re ?ic ?is (hash c) = Inr sc1"
    "ed_cache sc1 = Some c1" "table_ok co (hash c1)"
    "map unlinked (hash c1) = map unlinked (filter (\<lambda>e. \<not> (fst e \<in> fst ` set (hash c) \<and>
        loop_matches sc s strip_changed ?rs ?re ?ic ?is (fst (snd e)))) (hash c))"
    by blast
  have "filter (\<lambda>e. \<not> (fst e \<in> fst ` set (hash c) \<and>
        loop_matches sc s strip_changed ?rs ?re ?ic ?is (fst (snd e)))) (hash c) =
      filter (\<lambda>e. \<not> cleanup_matches sc s strip_changed invalidate_types (fst (snd e))) (hash c)"
    by (rule filter_cong [OF refl]) (simp add: loop_matches_def cleanup_matches_def)
  with r(4) have m: "map unlinked (hash c1) =
      map unlinked (filter (\<lambda>e. \<not> cleanup_matches sc s strip_changed invalidate_types (fst (snd e))) (hash c))"
    by simp
  have "seq_cache_cleanup_strip co sc s strip_changed invalidate_types False =
      Inr (sc1\<lparr>ed_cache := Some (c1\<lparr>last_key := None\<rparr>)\<rparr>)"
    using c r(1,2) by (simp add: seq_cache_cleanup_strip_def seq_cache_get_from_scene_def Let_def)
  with r(3) m show ?thesis by simp
qed

text \<open>Strip 7 with the handles 0 and 10, the changed strip 8 with the handles 5 and 20, and
  a FinalOutput and a Preprocessed key of strip 7, both at the timeline frame 15.\<close>

definition ex_two_strips :: "addr \<Rightarrow> Strip" where
  "ex_two_strips a = (if a = 8 then ex_strip\<lparr>left_handle := 5, right_handle := 20\<rparr>
                      else ex_strip\<lparr>right_handle := 10\<rparr>)"

definition ex_cleanup_cache :: SeqCache where
  "ex_cleanup_cache =
     \<lparr>hash = [(100, ex_key 0x41700000 8, ex_item 50), (101, ex_key 0x41700000 2, ex_item 51)],
      last_key = None\<rparr>"

definition ex_cleanup_scene :: Scene where
  "ex_cleanup_scene = (ex_scene ex_cleanup_cache)\<lparr>strips := ex_two_strips\<rparr>"

lemmas ex_cleanup_eval = ex_cleanup_scene_def ex_cleanup_cache_def ex_two_strips_def ex_scene_def
  ex_strip_def ex_key_def ex_item_def ex_context_def ex_collab_def
  seq_cache_cleanup_strip_def seq_cache_get_from_scene_def unlink_and_remove_def
  seq_cache_key_unlink_def key_deref_def BLI_ghash_remove_def seq_cache_valfree_def IMB_freeImBuf_def
  seq_cache_key_timeline_frame_get_def time_start_frame_get_def cache_hash_def
  seq_cache_hashcmp_def seq_cmp_render_data_def ex_eval_ghash
  SEQ_CACHE_STORE_RAW_def SEQ_CACHE_STORE_PREPROCESSED_def SEQ_CACHE_STORE_COMPOSITE_def
  SEQ_CACHE_STORE_FINAL_OUT_def

text \<open>
  C6 as stated fails: invalidating strip 7 for the changed strip 8 with every stage in the
  mask leaves the FinalOutput entry at frame 15, which lies in the handle range of the
  changed strip but not in the overlap, and removes the Preprocessed entry of strip 7 at
  frame 15, which lies outside the overlap.
\<close>

theorem cleanup_strip_final_out_uses_overlap:
  "(case seq_cache_cleanup_strip ex_collab ex_cleanup_scene 7 8 0xF False of
      Inl e \<Rightarrow> []
    | Inr sc' \<Rightarrow> map (\<lambda>e. (fst e, type (fst (snd e)))) (cache_hash sc')) = [(100, SEQ_CACHE_STORE_FINAL_OUT)] \<and>
   map (\<lambda>e. (fst e, type (fst (snd e)), strip (fst (snd e)),
              seq_cache_key_timeline_frame_get ex_cleanup_scene (fst (snd e)))) (hash ex_cleanup_cache) =
     [(100, SEQ_CACHE_STORE_FINAL_OUT, 7, Inr 15), (101, SEQ_CACHE_STORE_PREPROCESSED, 7, Inr 15)] \<and>
   (left_handle (strips ex_cleanup_scene 7), right_handle (strips ex_cleanup_scene 7)) = (0, 10) \<and>
   (left_handle (strips ex_cleanup_scene 8), right_handle (strips ex_cleanup_scene 8)) = (5, 20)"
  by (simp add: ex_cleanup_eval f32_eval)


lemma key_lookup_in_set: "key_lookup es x = Some k \<Longrightarrow> \<exists>i. (x, k, i) \<in> set es"
  by (induction es) (auto split: if_splits)

lemma chain_ok_no_links:
  assumes "\<forall>e\<in>set es. link_prev (fst (snd e)) = None \<and> link_next (fst (snd e)) = None"
  shows "chain_ok_map (key_lookup es)"
  unfolding chain_ok_map_def
proof (intro allI impI)
  fix x kx assume "key_lookup es x = Some kx"
  from key_lookup_in_set [OF this] obtain i where "(x, kx, i) \<in> set es" by blast
  with assms have "link_prev kx = None \<and> link_next kx = None" by force
  then show "(\<forall>n. link_next kx = Some n \<longrightarrow> (\<exists>kn. key_lookup es n = Some kn \<and> link_prev kn = Some x)) \<and>
        (\<forall>p. link_prev kx = Some p \<longrightarrow> (\<exists>kp. key_lookup es p = Some kp \<and> link_next kp = Some x))"
    by simp
qed

lemma ex_cleanup_table_ok: "table_ok ex_collab (hash ex_cleanup_cache)"
proof -
  have "chain_ok_map (key_lookup (hash ex_cleanup_cache))"
    by (rule chain_ok_no_links) (simp add: ex_cleanup_cache_def ex_key_def)
  then show ?thesis
    by (simp add: table_ok_def ex_cleanup_cache_def ex_key_def ex_context_def ex_collab_def
        seq_cache_hashcmp_def seq_cmp_render_data_def f32_eval)
qed

lemma ex_cleanup_frames: "frames_defined ex_cleanup_scene (hash ex_cleanup_cache)"
  by (simp add: frames_defined_def ex_cleanup_eval f32_eval)

theorem cleanup_strip_removes_exactly_witness:
  "\<exists>sc' c'. seq_cache_cleanup_strip ex_collab ex_cleanup_scene 7 8 0xF False = Inr sc' \<and>
      ed_cache sc' = Some c' \<and> last_key c' = None \<and> table_ok ex_collab (hash c') \<and>
      map unlinked (hash c') = [unlinked (100, ex_key 0x41700000 8, ex_item 50)]"
proof -
  have c: "ed_cache ex_cleanup_scene = Some ex_cleanup_cache"
    by (simp add: ex_cleanup_scene_def ex_scene_def)
  have f: "filter (\<lambda>e. \<not> cleanup_matches ex_cleanup_scene 7 8 0xF (fst (snd e))) (hash ex_cleanup_cache) =
      [(100, ex_key 0x41700000 8, ex_item 50)]"
    by (simp add: cleanup_matches_def ex_cleanup_eval f32_eval)
  from cleanup_strip_removes_exactly [OF c ex_cleanup_table_ok ex_cleanup_frames, of 7 8 "0xF"]
  show ?thesis by (simp add: f)
qed

subsection \<open>Recycling a chain\<close>

text \<open>The steps of the two walks of \<open>seq_cache_recycle_linked\<close> on a well-formed table:
  a step finds its key in the table, takes it out of its chain and removes it.\<close>

lemma table_ok_haskey:
  assumes ok: "table_ok co (hash c)" and x: "(x, k, i) \<in> set (hash c)"
  shows "BLI_ghash_haskey co c k"
proof -
  from ok have d: "distinct (map fst (hash c))" by (simp add: table_ok_def)
  from ok x have s: "\<not> seq_cache_hashcmp co k k" by (force simp: table_ok_def)
  have n: "\<forall>e\<in>set (hash c). fst e \<noteq> x \<longrightarrow> seq_cache_hashcmp co k (fst (snd e))"
    using ok x by (force simp: table_ok_def)
  from remove_entry_unique [OF d x s refl n] show ?thesis by (simp add: BLI_ghash_haskey_def)
qed

lemma recycle_prev_step:
  assumes c: "ed_cache sc = Some c" and ok: "table_ok co (hash c)" and x: "(x, k, i) \<in> set (hash c)"
  shows "recycle_linked_prev co sc (Some x) =
     (if last_key c = Some x then Inl AssertFailed
      else recycle_linked_prev co (seq_cache_valfree
        (sc\<lparr>ed_cache := Some (c\<lparr>hash := filter (\<lambda>e. fst e \<noteq> x) (map (relink k) (hash c))\<rparr>)\<rparr>) i)
        (link_prev k))"
proof -
  from ok have d: "distinct (map fst (hash c))" by (simp add: table_ok_def)
  with x have l: "key_lookup (hash c) x = Some k" by (auto simp: key_lookup_Some_iff)
  then have dr: "key_deref c (Some x) = Inr k" by (simp add: key_deref_def)
  have hk: "BLI_ghash_haskey co c k" by (rule table_ok_haskey [OF ok x])
  from ok have ch: "chain_ok_map (key_lookup (hash c))" by (simp add: table_ok_def)
  have rp: "(case link_prev k of None \<Rightarrow> Inr False
      | Some p \<Rightarrow> (case key_deref c (Some p) of Inl e \<Rightarrow> Inl e
                   | Inr prev \<Rightarrow> Inr (link_next prev \<noteq> Some x))) = Inr False"
  proof (cases "link_prev k")
    case None
    then show ?thesis by simp
  next
    case (Some p)
    with ch l obtain kp where "key_lookup (hash c) p = Some kp" "link_next kp = Some x"
      unfolding chain_ok_map_def by blast
    with Some show ?thesis by (simp add: key_deref_def)
  qed
  have u: "unlink_and_remove co sc c x k = Inr (seq_cache_valfree
        (sc\<lparr>ed_cache := Some (c\<lparr>hash := filter (\<lambda>e. fst e \<noteq> x) (map (relink k) (hash c))\<rparr>)\<rparr>) i)"
    by (rule unlink_and_remove_result [OF ok x same_key_refl])
  show ?thesis
    by (subst recycle_linked_prev.simps) (simp add: c dr hk rp u)
qed

lemma recycle_next_step:
  assumes c: "ed_cache sc = Some c" and ok: "table_ok co (hash c)" and x: "(x, k, i) \<in> set (hash c)"
  shows "recycle_linked_next co sc (Some x) =
     (if last_key c = Some x then Inl AssertFailed
      else recycle_linked_next co (seq_cache_valfree
        (sc\<lparr>ed_cache := Some (c\<lparr>hash := filter (\<lambda>e. fst e \<noteq> x) (map (relink k) (hash c))\<rparr>)\<rparr>) i)
        (link_next k))"
proof -
  from ok have d: "distinct (map fst (hash c))" by (simp add: table_ok_def)
  with x have l: "key_lookup (hash c) x = Some k" by (auto simp: key_lookup_Some_iff)
  then have dr: "key_deref c (Some x) = Inr k" by (simp add: key_deref_def)
  have hk: "BLI_ghash_haskey co c k" by (rule table_ok_haskey [OF ok x])
  from ok have ch: "chain_ok_map (key_lookup (hash c))" by (simp add: table_ok_def)
  have rp: "(case link_next k of None \<Rightarrow> Inr False
      | Some n \<Rightarrow> (case key_deref c (Some n) of Inl e \<Rightarrow> Inl e
                   | Inr next \<Rightarrow> Inr (link_prev next \<noteq> Some x))) = Inr False"
  proof (cases "link_next k")
    case None
    then show ?thesis by simp
  next
    case (Some n)
    with ch l obtain kn where "key_lookup (hash c) n = Some kn" "link_prev kn = Some x"
      unfolding chain_ok_map_def by blast
    with Some show ?thesis by (simp add: key_deref_def)
  qed
  have u: "unlink_and_remove co sc c x k = Inr (seq_cache_valfree
        (sc\<lparr>ed_cache := Some (c\<lparr>hash := filter (\<lambda>e. fst e \<noteq> x) (map (relink k) (hash c))\<rparr>)\<rparr>) i)"
    by (rule unlink_and_remove_result [OF ok x same_key_refl])
  show ?thesis
    by (subst recycle_linked_next.simps) (simp add: c dr hk rp u)
qed

lemma recycle_prev_None [simp]: "recycle_linked_prev co sc None = Inr sc"
  by (subst recycle_linked_prev.simps) simp

lemma recycle_next_None [simp]: "recycle_linked_next co sc None = Inr sc"
  by (subst recycle_linked_next.simps) simp


text \<open>\<open>prev_chain m xs p\<close>: following \<open>link_prev\<close> from the pointer \<open>p\<close> visits the
  keys at the addresses \<open>xs\<close>, all of them in the table \<open>m\<close>, and ends at a null link;
  \<open>next_chain\<close> is the same along \<open>link_next\<close>.\<close>

fun prev_chain :: "(addr \<Rightarrow> SeqCacheKey option) \<Rightarrow> addr list \<Rightarrow> addr option \<Rightarrow> bool" where
  "prev_chain m [] p = (p = None)"
| "prev_chain m (x # xs) p =
     (p = Some x \<and> (case m x of None \<Rightarrow> False | Some k \<Rightarrow> prev_chain m xs (link_prev k)))"

fun next_chain :: "(addr \<Rightarrow> SeqCacheKey option) \<Rightarrow> addr list \<Rightarrow> addr option \<Rightarrow> bool" where
  "next_chain m [] p = (p = None)"
| "next_chain m (x # xs) p =
     (p = Some x \<and> (case m x of None \<Rightarrow> False | Some k \<Rightarrow> next_chain m xs (link_next k)))"

lemma prev_chain_link:
  "prev_chain m xs p \<Longrightarrow> y \<in> set xs \<Longrightarrow> m y = Some ky \<Longrightarrow>
   link_prev ky = None \<or> (\<exists>z \<in> set xs. link_prev ky = Some z)"
proof (induction xs arbitrary: p)
  case Nil
  then show ?case by simp
next
  case (Cons x xs)
  from Cons.prems(1) obtain k where k: "m x = Some k" "prev_chain m xs (link_prev k)"
    by (auto split: option.splits)
  show ?case
  proof (cases "y = x")
    case True
    with k Cons.prems(3) have "prev_chain m xs (link_prev ky)" by simp
    then show ?thesis by (cases xs) auto
  next
    case False
    with Cons.prems(2) have "y \<in> set xs" by simp
    from Cons.IH [OF k(2) this Cons.prems(3)] show ?thesis by auto
  qed
qed

lemma next_chain_link:
  "next_chain m xs p \<Longrightarrow> y \<in> set xs \<Longrightarrow> m y = Some ky \<Longrightarrow>
   link_next ky = None \<or> (\<exists>z \<in> set xs. link_next ky = Some z)"
proof (induction xs arbitrary: p)
  case Nil
  then show ?case by simp
next
  case (Cons x xs)
  from Cons.prems(1) obtain k where k: "m x = Some k" "next_chain m xs (link_next k)"
    by (auto split: option.splits)
  show ?case
  proof (cases "y = x")
    case True
    with k Cons.prems(3) have "next_chain m xs (link_next ky)" by simp
    then show ?thesis by (cases xs) auto
  next
    case False
    with Cons.prems(2) have "y \<in> set xs" by simp
    from Cons.IH [OF k(2) this Cons.prems(3)] show ?thesis by auto
  qed
qed

lemma prev_chain_cong:
  assumes "\<forall>y\<in>set xs. \<forall>k. m y = Some k \<longrightarrow> (\<exists>k'. m' y = Some k' \<and> link_prev k' = link_prev k)"
  shows "prev_chain m xs p \<Longrightarrow> prev_chain m' xs p"
  using assms
proof (induction xs arbitrary: p)
  case Nil
  then show ?case by simp
next
  case (Cons x xs)
  from Cons.prems(1) obtain k where k: "p = Some x" "m x = Some k" "prev_chain m xs (link_prev k)"
    by (auto split: option.splits)
  from Cons.prems(2) k(2) obtain k' where k': "m' x = Some k'" "link_prev k' = link_prev k" by auto
  from Cons.IH [OF k(3)] Cons.prems(2) have "prev_chain m' xs (link_prev k)" by simp
  with k(1) k' show ?case by simp
qed

lemma next_chain_cong:
  assumes "\<forall>y\<in>set xs. \<forall>k. m y = Some k \<longrightarrow> (\<exists>k'. m' y = Some k' \<and> link_next k' = link_next k)"
  shows "next_chain m xs p \<Longrightarrow> next_chain m' xs p"
  using assms
proof (induction xs arbitrary: p)
  case Nil
  then show ?case by simp
next
  case (Cons x xs)
  from Cons.prems(1) obtain k where k: "p = Some x" "m x = Some k" "next_chain m xs (link_next k)"
    by (auto split: option.splits)
  from Cons.prems(2) k(2) obtain k' where k': "m' x = Some k'" "link_next k' = link_next k" by auto
  from Cons.IH [OF k(3)] Cons.prems(2) have "next_chain m' xs (link_next k)" by simp
  with k(1) k' show ?case by simp
qed

lemma prev_chain_head: "prev_chain m xs p \<Longrightarrow> p = None \<or> (\<exists>z\<in>set xs. p = Some z)"
  by (cases xs) auto

lemma next_chain_head: "next_chain m xs p \<Longrightarrow> p = None \<or> (\<exists>z\<in>set xs. p = Some z)"
  by (cases xs) auto


lemma recycle_prev_chain:
  assumes "ed_cache sc = Some c" and "table_ok co (hash c)"
    and "prev_chain (key_lookup (hash c)) xs p" and "distinct xs"
    and "\<forall>x\<in>set xs. last_key c \<noteq> Some x"
  shows "\<exists>sc' c'. recycle_linked_prev co sc p = Inr sc' \<and> ed_cache sc' = Some c' \<and>
           table_ok co (hash c') \<and> last_key c' = last_key c \<and>
           map unlinked (hash c') = map unlinked (filter (\<lambda>e. fst e \<notin> set xs) (hash c)) \<and>
           (\<forall>y k. y \<notin> set xs \<longrightarrow> key_lookup (hash c) y = Some k \<longrightarrow>
              (\<exists>k'. key_lookup (hash c') y = Some k' \<and> link_next k' = link_next k))"
  using assms
proof (induction xs arbitrary: sc c p)
  case Nil
  then show ?case by simp
next
  case (Cons x xs)
  let ?m = "key_lookup (hash c)"
  from Cons.prems(3) obtain k where p: "p = Some x" and k: "?m x = Some k"
    and pc: "prev_chain ?m xs (link_prev k)"
    by (auto split: option.splits)
  from Cons.prems(4) have xn: "x \<notin> set xs" and dx: "distinct xs" by simp_all
  from key_lookup_in_set [OF k] obtain i where xi: "(x, k, i) \<in> set (hash c)" by blast
  from Cons.prems(2) have ch: "chain_ok_map ?m" by (simp add: table_ok_def)
  let ?h1 = "filter (\<lambda>e. fst e \<noteq> x) (map (relink k) (hash c))"
  let ?c1 = "c\<lparr>hash := ?h1\<rparr>"
  let ?sc1 = "seq_cache_valfree (sc\<lparr>ed_cache := Some ?c1\<rparr>) i"
  from Cons.prems(5) have nlx: "last_key c \<noteq> Some x" and nl1: "\<forall>y\<in>set xs. last_key ?c1 \<noteq> Some y"
    by simp_all
  have st: "recycle_linked_prev co sc (Some x) = recycle_linked_prev co ?sc1 (link_prev k)"
    using recycle_prev_step [OF Cons.prems(1,2) xi] nlx by simp
  have c1: "ed_cache ?sc1 = Some ?c1" by simp
  have ok1: "table_ok co (hash ?c1)" using table_ok_remove [OF Cons.prems(2) k] by simp
  have l1: "key_lookup ?h1 y = (if y = x then None else map_option (relink_key k y) (?m y))" for y
    by (rule key_lookup_removed)
  have pc1: "prev_chain (key_lookup (hash ?c1)) xs (link_prev k)"
  proof (rule prev_chain_cong [OF _ pc], intro ballI allI impI)
    fix y ky assume y: "y \<in> set xs" and ky: "?m y = Some ky"
    from y xn have yx: "y \<noteq> x" by auto
    have "link_next k \<noteq> Some y"
    proof
      assume "link_next k = Some y"
      with ch k ky have "link_prev ky = Some x" unfolding chain_ok_map_def by fastforce
      with prev_chain_link [OF pc y ky] xn show False by auto
    qed
    then have "link_prev (relink_key k y ky) = link_prev ky" by (simp add: link_prev_relink)
    with yx ky show "\<exists>k'. key_lookup (hash ?c1) y = Some k' \<and> link_prev k' = link_prev ky"
      by (simp add: l1)
  qed
  from Cons.IH [OF c1 ok1 pc1 dx nl1]
  obtain sc' c' where r: "recycle_linked_prev co ?sc1 (link_prev k) = Inr sc'" "ed_cache sc' = Some c'"
    "table_ok co (hash c')" "last_key c' = last_key ?c1"
    "map unlinked (hash c') = map unlinked (filter (\<lambda>e. fst e \<notin> set xs) (hash ?c1))"
    "\<forall>y k1. y \<notin> set xs \<longrightarrow> key_lookup (hash ?c1) y = Some k1 \<longrightarrow>
        (\<exists>k'. key_lookup (hash c') y = Some k' \<and> link_next k' = link_next k1)"
    by blast
  let ?Q = "\<lambda>e. fst e \<noteq> x \<and> fst e \<notin> set xs"
  have "map unlinked (hash c') = map unlinked (filter ?Q (map (relink k) (hash c)))"
    using r(5) by simp
  also have "\<dots> = map unlinked (filter ?Q (hash c))"
    by (rule map_unlinked_filter_relink) simp
  also have "filter ?Q (hash c) = filter (\<lambda>e. fst e \<notin> set (x # xs)) (hash c)"
    by (rule filter_cong [OF refl]) simp
  finally have m: "map unlinked (hash c') = map unlinked (filter (\<lambda>e. fst e \<notin> set (x # xs)) (hash c))" .
  have nx: "\<forall>y ky. y \<notin> set (x # xs) \<longrightarrow> ?m y = Some ky \<longrightarrow>
        (\<exists>k'. key_lookup (hash c') y = Some k' \<and> link_next k' = link_next ky)"
  proof (intro allI impI)
    fix y ky assume y: "y \<notin> set (x # xs)" and ky: "?m y = Some ky"
    from prev_chain_head [OF pc] y have "link_prev k \<noteq> Some y" by auto
    then have "link_next (relink_key k y ky) = link_next ky" by (simp add: link_next_relink)
    moreover from y ky have "key_lookup (hash ?c1) y = Some (relink_key k y ky)" by (simp add: l1)
    ultimately show "\<exists>k'. key_lookup (hash c') y = Some k' \<and> link_next k' = link_next ky"
      using r(6) y by fastforce
  qed
  from r(1-4) m nx st p show ?case by simp
qed

lemma recycle_next_chain:
  assumes "ed_cache sc = Some c" and "table_ok co (hash c)"
    and "next_chain (key_lookup (hash c)) xs p" and "distinct xs"
    and "\<forall>x\<in>set xs. last_key c \<noteq> Some x"
  shows "\<exists>sc' c'. recycle_linked_next co sc p = Inr sc' \<and> ed_cache sc' = Some c' \<and>
           table_ok co (hash c') \<and> last_key c' = last_key c \<and>
           map unlinked (hash c') = map unlinked (filter (\<lambda>e. fst e \<notin> set xs) (hash c)) \<and>
           (\<forall>y k. y \<notin> set xs \<longrightarrow> key_lookup (hash c) y = Some k \<longrightarrow>
              (\<exists>k'. key_lookup (hash c') y = Some k' \<and> link_prev k' = link_prev k))"
  using assms
proof (induction xs arbitrary: sc c p)
  case Nil
  then show ?case by simp
next
  case (Cons x xs)
  let ?m = "key_lookup (hash c)"
  from Cons.prems(3) obtain k where p: "p = Some x" and k: "?m x = Some k"
    and pc: "next_chain ?m xs (link_next k)"
    by (auto split: option.splits)
  from Cons.prems(4) have xn: "x \<notin> set xs" and dx: "distinct xs" by simp_all
  from key_lookup_in_set [OF k] obtain i where xi: "(x, k, i) \<in> set (hash c)" by blast
  from Cons.prems(2) have ch: "chain_ok_map ?m" by (simp add: table_ok_def)
  let ?h1 = "filter (\<lambda>e. fst e \<noteq> x) (map (relink k) (hash c))"
  let ?c1 = "c\<lparr>hash := ?h1\<rparr>"
  let ?sc1 = "seq_cache_valfree (sc\<lparr>ed_cache := Some ?c1\<rparr>) i"
  from Cons.prems(5) have nlx: "last_key c \<noteq> Some x" and nl1: "\<forall>y\<in>set xs. last_key ?c1 \<noteq> Some y"
    by simp_all
  have st: "recycle_linked_next co sc (Some x) = recycle_linked_next co ?sc1 (link_next k)"
    using recycle_next_step [OF Cons.prems(1,2) xi] nlx by simp
  have c1: "ed_cache ?sc1 = Some ?c1" by simp
  have ok1: "table_ok co (hash ?c1)" using table_ok_remove [OF Cons.prems(2) k] by simp
  have l1: "key_lookup ?h1 y = (if y = x then None else map_option (relink_key k y) (?m y))" for y
    by (rule key_lookup_removed)
  have pc1: "next_chain (key_lookup (hash ?c1)) xs (link_next k)"
  proof (rule next_chain_cong [OF _ pc], intro ballI allI impI)
    fix y ky assume y: "y \<in> set xs" and ky: "?m y = Some ky"
    from y xn have yx: "y \<noteq> x" by auto
    have "link_prev k \<noteq> Some y"
    proof
      assume "link_prev k = Some y"
      with ch k ky have "link_next ky = Some x" unfolding chain_ok_map_def by fastforce
      with next_chain_link [OF pc y ky] xn show False by auto
    qed
    then have "link_next (relink_key k y ky) = link_next ky" by (simp add: link_next_relink)
    with yx ky show "\<exists>k'. key_lookup (hash ?c1) y = Some k' \<and> link_next k' = link_next ky"
      by (simp add: l1)
  qed
  from Cons.IH [OF c1 ok1 pc1 dx nl1]
  obtain sc' c' where r: "recycle_linked_next co ?sc1 (link_next k) = Inr sc'" "ed_cache sc' = Some c'"
    "table_ok co (hash c')" "last_key c' = last_key ?c1"
    "map unlinked (hash c') = map unlinked (filter (\<lambda>e. fst e \<notin> set xs) (hash ?c1))"
    "\<forall>y k1. y \<notin> set xs \<longrightarrow> key_lookup (hash ?c1) y = Some k1 \<longrightarrow>
        (\<exists>k'. key_lookup (hash c') y = Some k' \<and> link_prev k' = link_prev k1)"
    by blast
  let ?Q = "\<lambda>e. fst e \<noteq> x \<and> fst e \<notin> set xs"
  have "map unlinked (hash c') = map unlinked (filter ?Q (map (relink k) (hash c)))"
    using r(5) by simp
  also have "\<dots> = map unlinked (filter ?Q (hash c))"
    by (rule map_unlinked_filter_relink) simp
  also have "filter ?Q (hash c) = filter (\<lambda>e. fst e \<notin> set (x # xs)) (hash c)"
    by (rule filter_cong [OF refl]) simp
  finally have m: "map unlinked (hash c') = map unlinked (filter (\<lambda>e. fst e \<notin> set (x # xs)) (hash c))" .
  have nx: "\<forall>y ky. y \<notin> set (x # xs) \<longrightarrow> ?m y = Some ky \<longrightarrow>
        (\<exists>k'. key_lookup (hash c') y = Some k' \<and> link_prev k' = link_prev ky)"
  proof (intro allI impI)
    fix y ky assume y: "y \<notin> set (x # xs)" and ky: "?m y = Some ky"
    from next_chain_head [OF pc] y have "link_next k \<noteq> Some y" by auto
    then have "link_prev (relink_key k y ky) = link_prev ky" by (simp add: link_prev_relink)
    moreover from y ky have "key_lookup (hash ?c1) y = Some (relink_key k y ky)" by (simp add: l1)
    ultimately show "\<exists>k'. key_lookup (hash c') y = Some k' \<and> link_prev k' = link_prev ky"
      using r(6) y by fastforce
  qed
  from r(1-4) m nx st p show ?case by simp
qed


lemma fst_unlinked [simp]: "fst (unlinked e) = fst e"
  by (simp add: unlinked_def)

lemma map_unlinked_filter:
  "map unlinked (filter (\<lambda>e. Q (fst e)) es) = filter (\<lambda>e. Q (fst e)) (map unlinked es)"
  by (induction es) simp_all

lemma recycle_linked_chain:
  assumes c: "ed_cache sc = Some c" and ok: "table_ok co (hash c)"
    and b: "key_lookup (hash c) b = Some kb"
    and pc: "prev_chain (key_lookup (hash c)) xs (Some b)"
    and nc: "next_chain (key_lookup (hash c)) ys (link_next kb)"
    and d: "distinct (xs @ ys)"
    and nl: "\<forall>x\<in>set (xs @ ys). last_key c \<noteq> Some x"
  shows "\<exists>sc' c'. seq_cache_recycle_linked co sc (Some b) = Inr sc' \<and> ed_cache sc' = Some c' \<and>
           table_ok co (hash c') \<and> last_key c' = last_key c \<and>
           map unlinked (hash c') = map unlinked (filter (\<lambda>e. fst e \<notin> set (xs @ ys)) (hash c))"
proof -
  from d have dx: "distinct xs" and dy: "distinct ys" and dis: "set xs \<inter> set ys = {}" by simp_all
  from nl have nlx: "\<forall>x\<in>set xs. last_key c \<noteq> Some x" and nly: "\<forall>x\<in>set ys. last_key c \<noteq> Some x"
    by simp_all
  from recycle_prev_chain [OF c ok pc dx nlx]
  obtain sc1 c1 where r1: "recycle_linked_prev co sc (Some b) = Inr sc1" "ed_cache sc1 = Some c1"
    "table_ok co (hash c1)" "last_key c1 = last_key c"
    "map unlinked (hash c1) = map unlinked (filter (\<lambda>e. fst e \<notin> set xs) (hash c))"
    "\<forall>y k. y \<notin> set xs \<longrightarrow> key_lookup (hash c) y = Some k \<longrightarrow>
        (\<exists>k'. key_lookup (hash c1) y = Some k' \<and> link_next k' = link_next k)"
    by blast
  have nc1: "next_chain (key_lookup (hash c1)) ys (link_next kb)"
  proof (rule next_chain_cong [OF _ nc], intro ballI allI impI)
    fix y k assume "y \<in> set ys" and k: "key_lookup (hash c) y = Some k"
    with dis have "y \<notin> set xs" by auto
    with r1(6) k show "\<exists>k'. key_lookup (hash c1) y = Some k' \<and> link_next k' = link_next k" by blast
  qed
  from nly r1(4) have nly1: "\<forall>x\<in>set ys. last_key c1 \<noteq> Some x" by simp
  from recycle_next_chain [OF r1(2,3) nc1 dy nly1]
  obtain sc2 c2 where r2: "recycle_linked_next co sc1 (link_next kb) = Inr sc2" "ed_cache sc2 = Some c2"
    "table_ok co (hash c2)" "last_key c2 = last_key c1"
    "map unlinked (hash c2) = map unlinked (filter (\<lambda>e. fst e \<notin> set ys) (hash c1))"
    by blast
  have "map unlinked (hash c2) = filter (\<lambda>e. fst e \<notin> set ys) (map unlinked (hash c1))"
    using r2(5) map_unlinked_filter [of "\<lambda>x. x \<notin> set ys" "hash c1"] by simp
  also have "\<dots> = filter (\<lambda>e. fst e \<notin> set ys) (filter (\<lambda>e. fst e \<notin> set xs) (map unlinked (hash c)))"
    using r1(5) map_unlinked_filter [of "\<lambda>x. x \<notin> set xs" "hash c"] by simp
  also have "\<dots> = filter (\<lambda>e. fst e \<notin> set (xs @ ys)) (map unlinked (hash c))"
    by (simp add: conj_commute)
  also have "\<dots> = map unlinked (filter (\<lambda>e. fst e \<notin> set (xs @ ys)) (hash c))"
    using map_unlinked_filter [of "\<lambda>x. x \<notin> set (xs @ ys)" "hash c"] by simp
  finally have m: "map unlinked (hash c2) = map unlinked (filter (\<lambda>e. fst e \<notin> set (xs @ ys)) (hash c))" .
  have "key_deref c (Some b) = Inr kb" using b by (simp add: key_deref_def)
  then have "seq_cache_recycle_linked co sc (Some b) = Inr sc2"
    using c r1(1) r2(1) by (simp add: seq_cache_recycle_linked_def seq_cache_get_from_scene_def)
  with r2(2,3,4) r1(4) m show ?thesis by simp
qed

text \<open>When the walk along \<open>link_next\<close> starts at the key the chain tail points to, the
  assertion after its removal fails.\<close>

lemma recycle_linked_tail_assert:
  assumes c: "ed_cache sc = Some c" and ok: "table_ok co (hash c)"
    and b: "key_lookup (hash c) b = Some kb"
    and pc: "prev_chain (key_lookup (hash c)) xs (Some b)"
    and d: "distinct xs"
    and nl: "\<forall>x\<in>set xs. last_key c \<noteq> Some x"
    and n: "link_next kb = Some t" and lk: "last_key c = Some t"
  shows "seq_cache_recycle_linked co sc (Some b) = Inl AssertFailed"
proof -
  from recycle_prev_chain [OF c ok pc d nl]
  obtain sc1 c1 where r1: "recycle_linked_prev co sc (Some b) = Inr sc1" "ed_cache sc1 = Some c1"
    "table_ok co (hash c1)" "last_key c1 = last_key c"
    "\<forall>y k. y \<notin> set xs \<longrightarrow> key_lookup (hash c) y = Some k \<longrightarrow>
        (\<exists>k'. key_lookup (hash c1) y = Some k' \<and> link_next k' = link_next k)"
    by blast
  from ok have ch: "chain_ok_map (key_lookup (hash c))" by (simp add: table_ok_def)
  with b n obtain kt where kt: "key_lookup (hash c) t = Some kt" unfolding chain_ok_map_def by blast
  from nl lk have "t \<notin> set xs" by auto
  with r1(5) kt obtain kt' where "key_lookup (hash c1) t = Some kt'" by blast
  from key_lookup_in_set [OF this] obtain i where ti: "(t, kt', i) \<in> set (hash c1)" by blast
  from r1(4) lk have "last_key c1 = Some t" by simp
  with recycle_next_step [OF r1(2,3) ti]
  have "recycle_linked_next co sc1 (Some t) = Inl AssertFailed" by simp
  moreover have "key_deref c (Some b) = Inr kb" using b by (simp add: key_deref_def)
  ultimately show ?thesis
    using c r1(1) n by (simp add: seq_cache_recycle_linked_def seq_cache_get_from_scene_def)
qed

lemma f32_ne_sym: "f32_ne a b = f32_ne b a"
  by (auto simp: f32_ne_def)

lemma cmp_render_data_sym: "seq_cmp_render_data co a b = seq_cmp_render_data co b a"
  unfolding seq_cmp_render_data_def
  using f32_ne_sym [of "motion_blur_shutter a" "motion_blur_shutter b"] by auto

lemma hashcmp_sym: "seq_cache_hashcmp co a b = seq_cache_hashcmp co b a"
  unfolding seq_cache_hashcmp_def
  using f32_ne_sym [of "frame_index a" "frame_index b"] cmp_render_data_sym [of co "context' a" "context' b"]
  by auto

lemma prev_chain_live: "prev_chain m xs p \<Longrightarrow> y \<in> set xs \<Longrightarrow> m y \<noteq> None"
  by (induction xs arbitrary: p) (auto split: option.splits)

lemma prev_chain_None: "prev_chain m xs None \<Longrightarrow> xs = []"
  by (cases xs) simp_all

lemma chain_ok_map_add:
  assumes ok: "chain_ok_map m" and a: "m a = None"
    and ka: "link_prev ka = None" "link_next ka = None"
  shows "chain_ok_map (m(a \<mapsto> ka))"
  unfolding chain_ok_map_def
proof (intro allI impI)
  fix x kx assume x: "(m(a \<mapsto> ka)) x = Some kx"
  show "(\<forall>n. link_next kx = Some n \<longrightarrow> (\<exists>kn. (m(a \<mapsto> ka)) n = Some kn \<and> link_prev kn = Some x)) \<and>
        (\<forall>p. link_prev kx = Some p \<longrightarrow> (\<exists>kp. (m(a \<mapsto> ka)) p = Some kp \<and> link_next kp = Some x))"
  proof (cases "x = a")
    case True
    with x ka show ?thesis by simp
  next
    case False
    with x have mx: "m x = Some kx" by simp
    from ok mx have
      n: "\<forall>n. link_next kx = Some n \<longrightarrow> (\<exists>kn. m n = Some kn \<and> link_prev kn = Some x)" and
      p: "\<forall>p. link_prev kx = Some p \<longrightarrow> (\<exists>kp. m p = Some kp \<and> link_next kp = Some x)"
      unfolding chain_ok_map_def by blast+
    show ?thesis
    proof (intro conjI allI impI)
      fix n assume "link_next kx = Some n"
      with n obtain kn where kn: "m n = Some kn" "link_prev kn = Some x" by blast
      with a have "n \<noteq> a" by auto
      with kn show "\<exists>kn. (m(a \<mapsto> ka)) n = Some kn \<and> link_prev kn = Some x" by simp
    next
      fix p' assume "link_prev kx = Some p'"
      with p obtain kp where kp: "m p' = Some kp" "link_next kp = Some x" by blast
      with a have "p' \<noteq> a" by auto
      with kp show "\<exists>kp. (m(a \<mapsto> ka)) p' = Some kp \<and> link_next kp = Some x" by simp
    qed
  qed
qed

lemma chain_ok_map_link:
  assumes ok: "chain_ok_map m" and a: "m a = None" and t: "m t = Some kt"
    and tn: "link_next kt = None" and ka: "link_prev ka = Some t" "link_next ka = None"
  shows "chain_ok_map (m(a \<mapsto> ka, t \<mapsto> kt\<lparr>link_next := Some a\<rparr>))"
  unfolding chain_ok_map_def
proof (intro allI impI)
  let ?m' = "m(a \<mapsto> ka, t \<mapsto> kt\<lparr>link_next := Some a\<rparr>)"
  from a t have ne: "a \<noteq> t" by auto
  have m't: "?m' t = Some (kt\<lparr>link_next := Some a\<rparr>)" by simp
  have m'a: "?m' a = Some ka" using ne by simp
  have m'o: "\<And>y. y \<noteq> a \<Longrightarrow> y \<noteq> t \<Longrightarrow> ?m' y = m y" by simp
  fix x kx assume x: "?m' x = Some kx"
  consider "x = a" | "x = t" | "x \<noteq> a" "x \<noteq> t" by blast
  then show "(\<forall>n. link_next kx = Some n \<longrightarrow> (\<exists>kn. ?m' n = Some kn \<and> link_prev kn = Some x)) \<and>
        (\<forall>p. link_prev kx = Some p \<longrightarrow> (\<exists>kp. ?m' p = Some kp \<and> link_next kp = Some x))"
  proof cases
    case 1
    with x m'a have "kx = ka" by simp
    with 1 ka m't show ?thesis by simp
  next
    case 2
    with x have kx: "kx = kt\<lparr>link_next := Some a\<rparr>" by simp
    have "\<forall>p. link_prev kt = Some p \<longrightarrow> (\<exists>kp. ?m' p = Some kp \<and> link_next kp = Some t)"
    proof (intro allI impI)
      fix p assume "link_prev kt = Some p"
      with ok t obtain kp where kp: "m p = Some kp" "link_next kp = Some t"
        unfolding chain_ok_map_def by blast
      with a have pa: "p \<noteq> a" by auto
      from kp t tn have pt: "p \<noteq> t" by auto
      from m'o [OF pa pt] kp show "\<exists>kp. ?m' p = Some kp \<and> link_next kp = Some t" by simp
    qed
    with 2 kx ka m'a show ?thesis by simp
  next
    case 3
    with x have mx: "m x = Some kx" by simp
    from ok mx have
      n: "\<forall>n. link_next kx = Some n \<longrightarrow> (\<exists>kn. m n = Some kn \<and> link_prev kn = Some x)" and
      p: "\<forall>p. link_prev kx = Some p \<longrightarrow> (\<exists>kp. m p = Some kp \<and> link_next kp = Some x)"
      unfolding chain_ok_map_def by blast+
    show ?thesis
    proof (intro conjI allI impI)
      fix n assume "link_next kx = Some n"
      with n obtain kn where kn: "m n = Some kn" "link_prev kn = Some x" by blast
      with a have na: "n \<noteq> a" by auto
      show "\<exists>kn. ?m' n = Some kn \<and> link_prev kn = Some x"
      proof (cases "n = t")
        case True
        with kn t have "link_prev kt = Some x" by simp
        with True show ?thesis by simp
      next
        case False
        from m'o [OF na False] kn show ?thesis by simp
      qed
    next
      fix p' assume "link_prev kx = Some p'"
      with p obtain kp where kp: "m p' = Some kp" "link_next kp = Some x" by blast
      with a have pa: "p' \<noteq> a" by auto
      from kp t tn have pt: "p' \<noteq> t" by auto
      from m'o [OF pa pt] kp show "\<exists>kp. ?m' p' = Some kp \<and> link_next kp = Some x" by simp
    qed
  qed
qed

lemma put_ex_linked:
  assumes c: "ed_cache sc = Some c" and perm: "get_stored_types_flag sc key AND type key \<noteq> 0"
    and t: "last_key c = Some t" and kt: "key_lookup (hash c) t = Some kt"
    and a: "a \<notin> fst ` set (hash c)"
  shows "seq_cache_put_ex sc a key ib =
     Inr (IMB_refImBuf sc ib\<lparr>ed_cache := Some
        \<lparr>hash = map (\<lambda>(a', k, i). if a' = t then (a', k\<lparr>link_next := Some a\<rparr>, i) else (a', k, i)) (hash c) @
                 [(a, key\<lparr>is_temp_cache := False, link_prev := Some t\<rparr>, \<lparr>ibuf = Some ib\<rparr>)],
         last_key = (if type key = SEQ_CACHE_STORE_FINAL_OUT then None else Some a)\<rparr>\<rparr>)"
proof -
  from a kt have ne: "a \<noteq> t" using key_lookup_None_iff [of "hash c" a] by auto
  show ?thesis
    using c perm t kt ne
    by (simp add: seq_cache_put_ex_def seq_cache_get_from_scene_def BLI_ghash_insert_def Let_def
        key_deref_def key_lookup_append key_update_def IMB_refImBuf_def)
qed


text \<open>The part of \<open>table_ok\<close> that is about the addresses and the compared fields.\<close>

definition keys_ok :: "Collab \<Rightarrow> entry list \<Rightarrow> bool" where
  "keys_ok co es =
     (distinct (map fst es) \<and>
      (\<forall>e\<in>set es. \<not> seq_cache_hashcmp co (fst (snd e)) (fst (snd e))) \<and>
      (\<forall>e\<in>set es. \<forall>e'\<in>set es. fst e \<noteq> fst e' \<longrightarrow> seq_cache_hashcmp co (fst (snd e)) (fst (snd e'))))"

text \<open>The chain that ends at the pointer \<open>p\<close> (the chain tail of the cache): walking back
  from it visits the distinct keys \<open>ts\<close>, and the key at \<open>p\<close> has no successor.\<close>

definition chain_tail_ok :: "entry list \<Rightarrow> addr list \<Rightarrow> addr option \<Rightarrow> bool" where
  "chain_tail_ok es ts p =
     (prev_chain (key_lookup es) ts p \<and> distinct ts \<and>
      (case p of
         None \<Rightarrow> True
       | Some t \<Rightarrow> (case key_lookup es t of None \<Rightarrow> False | Some k \<Rightarrow> link_next k = None)))"

lemma table_ok_keys: "table_ok co es = (keys_ok co es \<and> chain_ok_map (key_lookup es))"
  by (simp add: table_ok_def keys_ok_def)

lemma same_key_unlinked: "same_key (fst (snd (unlinked e))) (fst (snd e))"
  by (simp add: unlinked_def same_key_def)

lemma cmp_unlinked:
  "seq_cache_hashcmp co (fst (snd (unlinked e))) (fst (snd (unlinked e'))) =
   seq_cache_hashcmp co (fst (snd e)) (fst (snd e'))"
  by (rule hashcmp_same_key) (rule same_key_unlinked)+

lemma keys_ok_unlinked: "keys_ok co (map unlinked es) = keys_ok co es"
proof -
  have "map fst (map unlinked es) = map fst es" by simp
  then show ?thesis
    unfolding keys_ok_def by (simp add: cmp_unlinked del: map_map)
qed

lemma keys_ok_cong: "map unlinked es' = map unlinked es \<Longrightarrow> keys_ok co es' = keys_ok co es"
  using keys_ok_unlinked [of co es'] keys_ok_unlinked [of co es] by simp

lemma keys_ok_snoc:
  assumes ok: "keys_ok co es" and a: "a \<notin> fst ` set es" and sk: "same_key k key"
    and self: "\<not> seq_cache_hashcmp co key key"
    and diff: "\<forall>e\<in>set es. seq_cache_hashcmp co key (fst (snd e))"
  shows "keys_ok co (es @ [(a, k, i)])"
proof -
  have s: "\<not> seq_cache_hashcmp co k k"
    using self hashcmp_same_key [OF sk sk, of co] by simp
  have d1: "\<forall>e\<in>set es. seq_cache_hashcmp co k (fst (snd e))"
    using diff hashcmp_same_key [OF sk same_key_refl, of co] by simp
  have d2: "\<forall>e\<in>set es. seq_cache_hashcmp co (fst (snd e)) k"
    using d1 hashcmp_sym [of co k] by simp
  from ok a s d1 d2 show ?thesis
    unfolding keys_ok_def by auto
qed

lemma key_lookup_snoc:
  "a \<notin> fst ` set es \<Longrightarrow> key_lookup (es @ [(a, ka, i)]) = (key_lookup es)(a \<mapsto> ka)"
proof (rule ext)
  fix y assume a: "a \<notin> fst ` set es"
  then have "key_lookup es a = None" by (simp add: key_lookup_None_iff)
  then show "key_lookup (es @ [(a, ka, i)]) y = ((key_lookup es)(a \<mapsto> ka)) y"
    by (cases "y = a") (simp_all add: key_lookup_append split: option.splits)
qed

lemma key_lookup_link_snoc:
  assumes a: "a \<notin> fst ` set es" and t: "key_lookup es t = Some kt"
  shows "key_lookup (map (\<lambda>(a', k, i). if a' = t then (a', f k, i) else (a', k, i)) es @ [(a, ka, i)]) =
         (key_lookup es)(a \<mapsto> ka, t \<mapsto> f kt)"
proof (rule ext)
  fix y
  from a have n: "key_lookup es a = None" by (simp add: key_lookup_None_iff)
  with t have ne: "a \<noteq> t" by auto
  show "key_lookup (map (\<lambda>(a', k, i). if a' = t then (a', f k, i) else (a', k, i)) es @ [(a, ka, i)]) y =
        ((key_lookup es)(a \<mapsto> ka, t \<mapsto> f kt)) y"
    using n t ne by (simp add: key_lookup_append key_lookup_map split: option.splits)
qed

lemma unlinked_set_next:
  "map unlinked (map (\<lambda>(a', k, i). if a' = t then (a', k\<lparr>link_next := n\<rparr>, i) else (a', k, i)) es) =
   map unlinked es"
  by (induction es) (auto simp: unlinked_def)


lemma put_ex_permanent_step:
  assumes c: "ed_cache sc = Some c" and ok: "table_ok co (hash c)"
    and ct: "chain_tail_ok (hash c) ts (last_key c)"
    and fresh: "a \<notin> fst ` set (hash c)"
    and pk: "populated key" and perm: "get_stored_types_flag sc key AND type key \<noteq> 0"
    and self: "\<not> seq_cache_hashcmp co key key"
    and diff: "\<forall>e\<in>set (hash c). seq_cache_hashcmp co key (fst (snd e))"
  shows "\<exists>sc' c'. seq_cache_put_ex sc a key ib = Inr sc' \<and> ed_cache sc' = Some c' \<and>
     table_ok co (hash c') \<and>
     last_key c' = (if type key = SEQ_CACHE_STORE_FINAL_OUT then None else Some a) \<and>
     chain_tail_ok (hash c') (a # ts) (Some a) \<and>
     map unlinked (hash c') =
       map unlinked (hash c) @ [unlinked (a, key\<lparr>is_temp_cache := False\<rparr>, \<lparr>ibuf = Some ib\<rparr>)] \<and>
     strips sc' = strips sc \<and> ed_cache_flag sc' = ed_cache_flag sc"
proof -
  let ?m = "key_lookup (hash c)"
  let ?ka = "key\<lparr>is_temp_cache := False, link_prev := last_key c\<rparr>"
  let ?it = "\<lparr>ibuf = Some ib\<rparr>"
  let ?lk = "if type key = SEQ_CACHE_STORE_FINAL_OUT then None else Some a"
  from ok have ko: "keys_ok co (hash c)" and cm: "chain_ok_map ?m" by (simp_all add: table_ok_keys)
  from ct have pc: "prev_chain ?m ts (last_key c)" and dts: "distinct ts"
    by (simp_all add: chain_tail_ok_def)
  from fresh have ma: "?m a = None" by (simp add: key_lookup_None_iff)
  from pk have kl: "link_prev key = None" "link_next key = None" by (simp_all add: populated_def)
  have ats: "a \<notin> set ts"
  proof
    assume "a \<in> set ts"
    from prev_chain_live [OF pc this] ma show False by simp
  qed
  have sk: "same_key ?ka key" by (simp add: same_key_def)
  have ul: "unlinked (a, ?ka, ?it) = unlinked (a, key\<lparr>is_temp_cache := False\<rparr>, ?it)"
    by (simp add: unlinked_def)
  have kn: "keys_ok co (hash c @ [(a, ?ka, ?it)])"
    by (rule keys_ok_snoc [OF ko fresh sk self diff])
  have main: "\<exists>es'. seq_cache_put_ex sc a key ib =
        Inr (IMB_refImBuf sc ib\<lparr>ed_cache := Some \<lparr>hash = es', last_key = ?lk\<rparr>\<rparr>) \<and>
      map unlinked es' = map unlinked (hash c @ [(a, ?ka, ?it)]) \<and>
      chain_ok_map (key_lookup es') \<and>
      (\<exists>k'. key_lookup es' a = Some k' \<and> link_prev k' = last_key c \<and> link_next k' = None) \<and>
      (\<forall>y\<in>set ts. \<forall>k. ?m y = Some k \<longrightarrow> (\<exists>k'. key_lookup es' y = Some k' \<and> link_prev k' = link_prev k))"
  proof (cases "last_key c")
    case None
    let ?es' = "hash c @ [(a, ?ka, ?it)]"
    have p: "seq_cache_put_ex sc a key ib =
        Inr (IMB_refImBuf sc ib\<lparr>ed_cache := Some \<lparr>hash = ?es', last_key = ?lk\<rparr>\<rparr>)"
      using put_ex_fresh_chain [OF c None, of a key ib] perm None by (simp add: stored_key_def)
    have m': "key_lookup ?es' = ?m(a \<mapsto> ?ka)" by (rule key_lookup_snoc [OF fresh])
    have "chain_ok_map (?m(a \<mapsto> ?ka))"
      by (rule chain_ok_map_add [OF cm ma]) (simp_all add: None kl)
    with m' have c': "chain_ok_map (key_lookup ?es')" by simp
    have a': "\<exists>k'. key_lookup ?es' a = Some k' \<and> link_prev k' = last_key c \<and> link_next k' = None"
      by (simp add: m' kl)
    from pc None have "ts = []" by (simp add: prev_chain_None)
    with p c' a' show ?thesis by auto
  next
    case (Some t)
    from ct Some obtain kt where kt: "?m t = Some kt" and tn: "link_next kt = None"
      by (auto simp: chain_tail_ok_def split: option.splits)
    let ?es' = "map (\<lambda>(a', k, i). if a' = t then (a', k\<lparr>link_next := Some a\<rparr>, i) else (a', k, i)) (hash c) @
                 [(a, ?ka, ?it)]"
    have p: "seq_cache_put_ex sc a key ib =
        Inr (IMB_refImBuf sc ib\<lparr>ed_cache := Some \<lparr>hash = ?es', last_key = ?lk\<rparr>\<rparr>)"
      using put_ex_linked [OF c perm Some kt fresh, of ib] Some by simp
    have u: "map unlinked ?es' = map unlinked (hash c @ [(a, ?ka, ?it)])"
      by (simp add: unlinked_set_next del: map_map)
    have m': "key_lookup ?es' = ?m(a \<mapsto> ?ka, t \<mapsto> kt\<lparr>link_next := Some a\<rparr>)"
      by (rule key_lookup_link_snoc [OF fresh kt])
    from ma kt have ne: "a \<noteq> t" by auto
    have "chain_ok_map (?m(a \<mapsto> ?ka, t \<mapsto> kt\<lparr>link_next := Some a\<rparr>))"
      by (rule chain_ok_map_link [OF cm ma kt tn]) (simp_all add: Some kl)
    with m' have c': "chain_ok_map (key_lookup ?es')" by simp
    have a': "\<exists>k'. key_lookup ?es' a = Some k' \<and> link_prev k' = last_key c \<and> link_next k' = None"
      using ne by (simp add: m' kl)
    have o: "\<forall>y\<in>set ts. \<forall>k. ?m y = Some k \<longrightarrow> (\<exists>k'. key_lookup ?es' y = Some k' \<and> link_prev k' = link_prev k)"
    proof (intro ballI allI impI)
      fix y k assume y: "y \<in> set ts" and k: "?m y = Some k"
      from y ats have "y \<noteq> a" by auto
      with k kt show "\<exists>k'. key_lookup ?es' y = Some k' \<and> link_prev k' = link_prev k"
        by (cases "y = t") (simp_all add: m')
    qed
    from p u c' a' o show ?thesis by blast
  qed
  then obtain es' where r: "seq_cache_put_ex sc a key ib =
        Inr (IMB_refImBuf sc ib\<lparr>ed_cache := Some \<lparr>hash = es', last_key = ?lk\<rparr>\<rparr>)"
      "map unlinked es' = map unlinked (hash c @ [(a, ?ka, ?it)])"
      "chain_ok_map (key_lookup es')"
      "\<exists>k'. key_lookup es' a = Some k' \<and> link_prev k' = last_key c \<and> link_next k' = None"
      "\<forall>y\<in>set ts. \<forall>k. ?m y = Some k \<longrightarrow> (\<exists>k'. key_lookup es' y = Some k' \<and> link_prev k' = link_prev k)"
    by blast
  from keys_ok_cong [OF r(2), of co] kn r(3) have t': "table_ok co es'" by (simp add: table_ok_keys)
  from prev_chain_cong [OF r(5) pc] have pc': "prev_chain (key_lookup es') ts (last_key c)" .
  from r(4) obtain k' where k': "key_lookup es' a = Some k'" "link_prev k' = last_key c" "link_next k' = None"
    by blast
  have ct': "chain_tail_ok es' (a # ts) (Some a)"
    using k' pc' dts ats by (simp add: chain_tail_ok_def)
  have u': "map unlinked es' = map unlinked (hash c) @ [unlinked (a, key\<lparr>is_temp_cache := False\<rparr>, ?it)]"
    using r(2) ul by simp
  show ?thesis
    using r(1) t' ct' u' by (simp add: IMB_refImBuf_def)
qed

lemma cmp_key_unlinked:
  "seq_cache_hashcmp co k (fst (snd (unlinked e))) = seq_cache_hashcmp co k (fst (snd e))"
  by (rule hashcmp_same_key [OF same_key_refl same_key_unlinked])

lemma diff_transfer:
  assumes sub: "set (map unlinked es') \<subseteq> set (map unlinked es)"
    and d: "\<forall>e\<in>set es. seq_cache_hashcmp co k (fst (snd e))"
  shows "\<forall>e\<in>set es'. seq_cache_hashcmp co k (fst (snd e))"
proof
  fix e' assume "e' \<in> set es'"
  then have "unlinked e' \<in> set (map unlinked es')" by simp
  with sub obtain e where e: "e \<in> set es" "unlinked e' = unlinked e" by auto
  from d e(1) have "seq_cache_hashcmp co k (fst (snd (unlinked e)))" by (simp add: cmp_key_unlinked)
  with e(2) have "seq_cache_hashcmp co k (fst (snd (unlinked e')))" by simp
  then show "seq_cache_hashcmp co k (fst (snd e'))" by (simp only: cmp_key_unlinked)
qed

lemma fresh_transfer:
  assumes sub: "set (map unlinked es') \<subseteq> set (map unlinked es)" and f: "x \<notin> fst ` set es"
  shows "x \<notin> fst ` set es'"
proof
  assume "x \<in> fst ` set es'"
  then obtain e' where e': "e' \<in> set es'" "fst e' = x" by auto
  then have "unlinked e' \<in> set (map unlinked es')" by simp
  with sub obtain e where e: "e \<in> set es" "unlinked e' = unlinked e" by auto
  from e(2) have "fst e' = fst e" using fst_unlinked [of e'] fst_unlinked [of e] by simp
  with e' e(1) f show False by auto
qed

lemma bucket_lookup_None:
  "\<forall>e\<in>set es. seq_cache_hashcmp co k (fst (snd e)) \<Longrightarrow> bucket_lookup co n es k = None"
  by (induction es) (simp_all add: ghash_match_def)

lemma lookup_entry_None:
  "\<forall>e\<in>set es. seq_cache_hashcmp co k (fst (snd e)) \<Longrightarrow> ghash_lookup_entry co es k = None"
  by (simp add: ghash_lookup_entry_def bucket_lookup_None)

lemma stored_types_flag_cong:
  "strips sc' = strips sc \<Longrightarrow> ed_cache_flag sc' = ed_cache_flag sc \<Longrightarrow>
   get_stored_types_flag sc' k = get_stored_types_flag sc k"
  by (simp add: get_stored_types_flag_def)

lemma table_ok_links:
  assumes ok: "table_ok co es" and e: "e \<in> set es"
  shows "links_within (fst ` set es) (fst (snd e))"
proof -
  from ok have d: "distinct (map fst es)" and cm: "chain_ok_map (key_lookup es)"
    by (simp_all add: table_ok_def)
  from e have "(fst e, fst (snd e), snd (snd e)) \<in> set es" by simp
  then have l: "key_lookup es (fst e) = Some (fst (snd e))"
    using key_lookup_Some_iff [OF d, of "fst e" "fst (snd e)"] by blast
  have n: "link_next (fst (snd e)) = None \<or> the (link_next (fst (snd e))) \<in> fst ` set es"
  proof (cases "link_next (fst (snd e))")
    case None
    then show ?thesis by simp
  next
    case (Some n)
    with cm l obtain kn where "key_lookup es n = Some kn" unfolding chain_ok_map_def by blast
    then have "n \<in> fst ` set es" using key_lookup_None_iff [of es n] by auto
    with Some show ?thesis by simp
  qed
  have p: "link_prev (fst (snd e)) = None \<or> the (link_prev (fst (snd e))) \<in> fst ` set es"
  proof (cases "link_prev (fst (snd e))")
    case None
    then show ?thesis by simp
  next
    case (Some n)
    with cm l obtain kn where "key_lookup es n = Some kn" unfolding chain_ok_map_def by blast
    then have "n \<in> fst ` set es" using key_lookup_None_iff [of es n] by auto
    with Some show ?thesis by simp
  qed
  from n p show ?thesis by (simp add: links_within_def)
qed


lemma hashcmp_temp [simp]:
  "seq_cache_hashcmp co k (k'\<lparr>is_temp_cache := f\<rparr>) = seq_cache_hashcmp co k k'"
  by (simp add: seq_cache_hashcmp_def)

lemma prev_chain_step:
  "prev_chain m (x # xs) p \<Longrightarrow> \<exists>k. m x = Some k \<and> prev_chain m xs (link_prev k)"
  by (auto split: option.splits)

lemma prev_chain_Cons_head: "prev_chain m (y # ys) q \<Longrightarrow> q = Some y"
  by simp

text \<open>The keys at \<open>a\<close>, \<open>b\<close> and \<open>c\<close> are linked in this order, \<open>c\<close> the last of its chain.\<close>

definition chain_of_three :: "entry list \<Rightarrow> addr \<Rightarrow> addr \<Rightarrow> addr \<Rightarrow> bool" where
  "chain_of_three es a b c =
     (case (key_lookup es a, key_lookup es b, key_lookup es c) of
        (Some ka, Some kb, Some kc) \<Rightarrow>
          link_next ka = Some b \<and> link_prev kb = Some a \<and> link_next kb = Some c \<and>
          link_prev kc = Some b \<and> link_next kc = None
      | _ \<Rightarrow> False)"

text \<open>Three insertions one after the other, of keys that are stored, at fresh addresses:
  they succeed, and the three keys are linked in one chain behind the chain \<open>ts\<close> that the
  chain tail ended.\<close>

lemma put_three_chain:
  assumes c0: "ed_cache sc0 = Some c0" and ok: "table_ok co (hash c0)"
    and ct: "chain_tail_ok (hash c0) ts (last_key c0)"
    and ad: "distinct [a, b, c]"
    and af: "a \<notin> fst ` set (hash c0)" "b \<notin> fst ` set (hash c0)" "c \<notin> fst ` set (hash c0)"
    and pop: "populated kA" "populated kB" "populated kC"
    and perm: "get_stored_types_flag sc0 kA AND type kA \<noteq> 0"
      "get_stored_types_flag sc0 kB AND type kB \<noteq> 0"
      "get_stored_types_flag sc0 kC AND type kC \<noteq> 0"
    and nf: "type kA \<noteq> SEQ_CACHE_STORE_FINAL_OUT" "type kB \<noteq> SEQ_CACHE_STORE_FINAL_OUT"
    and self: "\<not> seq_cache_hashcmp co kA kA" "\<not> seq_cache_hashcmp co kB kB"
      "\<not> seq_cache_hashcmp co kC kC"
    and diff: "\<forall>e\<in>set (hash c0). seq_cache_hashcmp co kA (fst (snd e))"
      "\<forall>e\<in>set (hash c0). seq_cache_hashcmp co kB (fst (snd e))"
      "\<forall>e\<in>set (hash c0). seq_cache_hashcmp co kC (fst (snd e))"
    and pair: "seq_cache_hashcmp co kA kB" "seq_cache_hashcmp co kA kC" "seq_cache_hashcmp co kB kC"
  shows "\<exists>sc3 c3 kb.
      put_ex_list sc0 [(a, kA, iA), (b, kB, iB), (c, kC, iC)] = Inr sc3 \<and> ed_cache sc3 = Some c3 \<and>
      table_ok co (hash c3) \<and>
      last_key c3 = (if type kC = SEQ_CACHE_STORE_FINAL_OUT then None else Some c) \<and>
      map unlinked (hash c3) =
        map unlinked (hash c0) @
          [unlinked (a, kA\<lparr>is_temp_cache := False\<rparr>, \<lparr>ibuf = Some iA\<rparr>),
           unlinked (b, kB\<lparr>is_temp_cache := False\<rparr>, \<lparr>ibuf = Some iB\<rparr>),
           unlinked (c, kC\<lparr>is_temp_cache := False\<rparr>, \<lparr>ibuf = Some iC\<rparr>)] \<and>
      chain_of_three (hash c3) a b c \<and>
      key_lookup (hash c3) b = Some kb \<and> link_next kb = Some c \<and>
      prev_chain (key_lookup (hash c3)) (b # a # ts) (Some b) \<and>
      next_chain (key_lookup (hash c3)) [c] (Some c) \<and> distinct (c # b # a # ts)"
proof -
  let ?eA = "(a, kA\<lparr>is_temp_cache := False\<rparr>, \<lparr>ibuf = Some iA\<rparr>)"
  let ?eB = "(b, kB\<lparr>is_temp_cache := False\<rparr>, \<lparr>ibuf = Some iB\<rparr>)"
  let ?eC = "(c, kC\<lparr>is_temp_cache := False\<rparr>, \<lparr>ibuf = Some iC\<rparr>)"
  from ad have ne: "a \<noteq> b" "a \<noteq> c" "b \<noteq> c" by simp_all
  from pair have pair': "seq_cache_hashcmp co kB kA" "seq_cache_hashcmp co kC kA"
    "seq_cache_hashcmp co kC kB"
    using hashcmp_sym [of co kA kB] hashcmp_sym [of co kA kC] hashcmp_sym [of co kB kC] by simp_all
  \<comment> \<open>the insertion of A\<close>
  from put_ex_permanent_step [OF c0 ok ct af(1) pop(1) perm(1) self(1) diff(1), of iA]
  obtain sc1 c1 where r1: "seq_cache_put_ex sc0 a kA iA = Inr sc1" "ed_cache sc1 = Some c1"
    "table_ok co (hash c1)"
    "last_key c1 = (if type kA = SEQ_CACHE_STORE_FINAL_OUT then None else Some a)"
    "chain_tail_ok (hash c1) (a # ts) (Some a)"
    "map unlinked (hash c1) = map unlinked (hash c0) @ [unlinked ?eA]"
    "strips sc1 = strips sc0" "ed_cache_flag sc1 = ed_cache_flag sc0"
    by blast
  from r1(4,5) nf(1) have ct1: "chain_tail_ok (hash c1) (a # ts) (last_key c1)" by simp
  have u1: "map unlinked (hash c1) = map unlinked (hash c0 @ [?eA])" using r1(6) by simp
  then have sub1: "set (map unlinked (hash c1)) \<subseteq> set (map unlinked (hash c0 @ [?eA]))" by simp
  have fb1: "b \<notin> fst ` set (hash c1)"
    by (rule fresh_transfer [OF sub1]) (use af(2) ne in auto)
  have fc1: "c \<notin> fst ` set (hash c1)"
    by (rule fresh_transfer [OF sub1]) (use af(3) ne in auto)
  have dB1: "\<forall>e\<in>set (hash c1). seq_cache_hashcmp co kB (fst (snd e))"
    by (rule diff_transfer [OF sub1]) (use diff(2) pair'(1) in simp)
  have dC1: "\<forall>e\<in>set (hash c1). seq_cache_hashcmp co kC (fst (snd e))"
    by (rule diff_transfer [OF sub1]) (use diff(3) pair'(2) in simp)
  have pB1: "get_stored_types_flag sc1 kB AND type kB \<noteq> 0"
    using perm(2) stored_types_flag_cong [OF r1(7,8), of kB] by simp
  \<comment> \<open>the insertion of B\<close>
  from put_ex_permanent_step [OF r1(2,3) ct1 fb1 pop(2) pB1 self(2) dB1, of iB]
  obtain sc2 c2 where r2: "seq_cache_put_ex sc1 b kB iB = Inr sc2" "ed_cache sc2 = Some c2"
    "table_ok co (hash c2)"
    "last_key c2 = (if type kB = SEQ_CACHE_STORE_FINAL_OUT then None else Some b)"
    "chain_tail_ok (hash c2) (b # a # ts) (Some b)"
    "map unlinked (hash c2) = map unlinked (hash c1) @ [unlinked ?eB]"
    "strips sc2 = strips sc1" "ed_cache_flag sc2 = ed_cache_flag sc1"
    by blast
  from r2(4,5) nf(2) have ct2: "chain_tail_ok (hash c2) (b # a # ts) (last_key c2)" by simp
  have u2: "map unlinked (hash c2) = map unlinked (hash c1 @ [?eB])" using r2(6) by simp
  then have sub2: "set (map unlinked (hash c2)) \<subseteq> set (map unlinked (hash c1 @ [?eB]))" by simp
  have fc2: "c \<notin> fst ` set (hash c2)"
    by (rule fresh_transfer [OF sub2]) (use fc1 ne in auto)
  have dC2: "\<forall>e\<in>set (hash c2). seq_cache_hashcmp co kC (fst (snd e))"
    by (rule diff_transfer [OF sub2]) (use dC1 pair'(3) in simp)
  have pC2: "get_stored_types_flag sc2 kC AND type kC \<noteq> 0"
    using perm(3) stored_types_flag_cong [of sc2 sc0 kC] r1(7,8) r2(7,8) by simp
  \<comment> \<open>the insertion of C\<close>
  from put_ex_permanent_step [OF r2(2,3) ct2 fc2 pop(3) pC2 self(3) dC2, of iC]
  obtain sc3 c3 where r3: "seq_cache_put_ex sc2 c kC iC = Inr sc3" "ed_cache sc3 = Some c3"
    "table_ok co (hash c3)"
    "last_key c3 = (if type kC = SEQ_CACHE_STORE_FINAL_OUT then None else Some c)"
    "chain_tail_ok (hash c3) (c # b # a # ts) (Some c)"
    "map unlinked (hash c3) = map unlinked (hash c2) @ [unlinked ?eC]"
    by blast
  have p3: "put_ex_list sc0 [(a, kA, iA), (b, kB, iB), (c, kC, iC)] = Inr sc3"
    using r1(1) r2(1) r3(1) by simp
  have u3: "map unlinked (hash c3) = map unlinked (hash c0) @ [unlinked ?eA, unlinked ?eB, unlinked ?eC]"
    using r3(6) r2(6) r1(6) by simp
  \<comment> \<open>the chain in the table\<close>
  let ?m = "key_lookup (hash c3)"
  from r3(3) have cm: "chain_ok_map ?m" by (simp add: table_ok_def)
  from r3(5) have pcc: "prev_chain ?m (c # b # a # ts) (Some c)" and d3: "distinct (c # b # a # ts)"
    by (simp_all add: chain_tail_ok_def)
  from r3(5) obtain kc where kc: "?m c = Some kc" "link_next kc = None"
    by (auto simp: chain_tail_ok_def split: option.splits)
  from prev_chain_step [OF pcc] kc(1) have pcb: "prev_chain ?m (b # a # ts) (link_prev kc)" by simp
  from prev_chain_Cons_head [OF pcb] have kcp: "link_prev kc = Some b" .
  from prev_chain_step [OF pcb] obtain kb where kb: "?m b = Some kb"
    and pca: "prev_chain ?m (a # ts) (link_prev kb)" by blast
  from prev_chain_Cons_head [OF pca] have kbp: "link_prev kb = Some a" .
  from prev_chain_step [OF pca] obtain ka where ka: "?m a = Some ka" by blast
  from cm kc(1) kcp kb have kbn: "link_next kb = Some c" unfolding chain_ok_map_def by fastforce
  from cm kb kbp ka have kan: "link_next ka = Some b" unfolding chain_ok_map_def by fastforce
  have three: "chain_of_three (hash c3) a b c"
    by (simp add: chain_of_three_def ka kb kc kan kbp kbn kcp)
  from pcb kcp have pcb': "prev_chain ?m (b # a # ts) (Some b)" by simp
  have ncc: "next_chain ?m [c] (Some c)" by (simp add: kc)
  from p3 r3(2,3,4) u3 three kb kbn pcb' ncc d3 show ?thesis by blast
qed

text \<open>
  C2 fails when C is not of the FinalOutput stage. The table is well-formed and its chain
  tail ends a well-formed chain \<open>ts\<close> (empty when the tail is null). Three keys A, B and C
  as \<open>seq_cache_populate_key\<close> fills them, each of a stage that is stored (so none is
  temporary), none of the FinalOutput stage, equal to themselves, different from each
  other and from every key of the table, are inserted one after the other at fresh
  addresses \<open>a\<close>, \<open>b\<close> and \<open>c\<close>. Then the three insertions succeed and link A, B and C in
  this order in one chain, the chain tail points to C, and \<open>seq_cache_recycle_linked\<close>
  with B as the key to remove fails the assertion \<^verbatim>\<open>BLI_assert(base != cache->last_key)\<close>
  when its walk along \<open>link_next\<close> has removed C: the source does not reset the chain
  tail when it recycles the chain the tail points to.
\<close>

theorem recycle_linked_chain_tail_assert:
  assumes c0: "ed_cache sc0 = Some c0" and ok: "table_ok co (hash c0)"
    and ct: "chain_tail_ok (hash c0) ts (last_key c0)"
    and ad: "distinct [a, b, c]"
    and af: "a \<notin> fst ` set (hash c0)" "b \<notin> fst ` set (hash c0)" "c \<notin> fst ` set (hash c0)"
    and pop: "populated kA" "populated kB" "populated kC"
    and perm: "get_stored_types_flag sc0 kA AND type kA \<noteq> 0"
      "get_stored_types_flag sc0 kB AND type kB \<noteq> 0"
      "get_stored_types_flag sc0 kC AND type kC \<noteq> 0"
    and nf: "type kA \<noteq> SEQ_CACHE_STORE_FINAL_OUT" "type kB \<noteq> SEQ_CACHE_STORE_FINAL_OUT"
      "type kC \<noteq> SEQ_CACHE_STORE_FINAL_OUT"
    and self: "\<not> seq_cache_hashcmp co kA kA" "\<not> seq_cache_hashcmp co kB kB"
      "\<not> seq_cache_hashcmp co kC kC"
    and diff: "\<forall>e\<in>set (hash c0). seq_cache_hashcmp co kA (fst (snd e))"
      "\<forall>e\<in>set (hash c0). seq_cache_hashcmp co kB (fst (snd e))"
      "\<forall>e\<in>set (hash c0). seq_cache_hashcmp co kC (fst (snd e))"
    and pair: "seq_cache_hashcmp co kA kB" "seq_cache_hashcmp co kA kC" "seq_cache_hashcmp co kB kC"
  shows "\<exists>sc3 c3.
      put_ex_list sc0 [(a, kA, iA), (b, kB, iB), (c, kC, iC)] = Inr sc3 \<and> ed_cache sc3 = Some c3 \<and>
      chain_of_three (hash c3) a b c \<and> last_key c3 = Some c \<and>
      seq_cache_recycle_linked co sc3 (Some b) = Inl AssertFailed"
proof -
  from put_three_chain [OF c0 ok ct ad af pop perm nf(1,2) self diff pair, of iA iB iC]
  obtain sc3 c3 kb where r: "put_ex_list sc0 [(a, kA, iA), (b, kB, iB), (c, kC, iC)] = Inr sc3"
    "ed_cache sc3 = Some c3" "table_ok co (hash c3)"
    "last_key c3 = (if type kC = SEQ_CACHE_STORE_FINAL_OUT then None else Some c)"
    "chain_of_three (hash c3) a b c"
    "key_lookup (hash c3) b = Some kb" "link_next kb = Some c"
    "prev_chain (key_lookup (hash c3)) (b # a # ts) (Some b)" "distinct (c # b # a # ts)"
    by blast
  from r(4) nf(3) have lk: "last_key c3 = Some c" by simp
  from r(9) have d: "distinct (b # a # ts)" by simp
  from r(9) lk have nl: "\<forall>x\<in>set (b # a # ts). last_key c3 \<noteq> Some x" by auto
  from recycle_linked_tail_assert [OF r(2,3,6,8) d nl r(7) lk]
  have "seq_cache_recycle_linked co sc3 (Some b) = Inl AssertFailed" .
  with r(1,2,5) lk show ?thesis by blast
qed

text \<open>
  When C is of the FinalOutput stage its insertion has reset the chain tail, and
  \<open>seq_cache_recycle_linked\<close> with B as the key to remove returns: the table is
  well-formed again and holds exactly the entries it had before the insertions that were
  not on the chain \<open>ts\<close>, none of \<open>a\<close>, \<open>b\<close>, \<open>c\<close> is an address of the table, a lookup of
  A, B or C misses, and no key left in the table has a link to \<open>a\<close>, \<open>b\<close> or \<open>c\<close>.
\<close>

lemma recycle_linked_removes_chain_final_out:
  assumes c0: "ed_cache sc0 = Some c0" and ok: "table_ok co (hash c0)"
    and ct: "chain_tail_ok (hash c0) ts (last_key c0)"
    and ad: "distinct [a, b, c]"
    and af: "a \<notin> fst ` set (hash c0)" "b \<notin> fst ` set (hash c0)" "c \<notin> fst ` set (hash c0)"
    and pop: "populated kA" "populated kB" "populated kC"
    and perm: "get_stored_types_flag sc0 kA AND type kA \<noteq> 0"
      "get_stored_types_flag sc0 kB AND type kB \<noteq> 0"
      "get_stored_types_flag sc0 kC AND type kC \<noteq> 0"
    and nf: "type kA \<noteq> SEQ_CACHE_STORE_FINAL_OUT" "type kB \<noteq> SEQ_CACHE_STORE_FINAL_OUT"
    and fin: "type kC = SEQ_CACHE_STORE_FINAL_OUT"
    and self: "\<not> seq_cache_hashcmp co kA kA" "\<not> seq_cache_hashcmp co kB kB"
      "\<not> seq_cache_hashcmp co kC kC"
    and diff: "\<forall>e\<in>set (hash c0). seq_cache_hashcmp co kA (fst (snd e))"
      "\<forall>e\<in>set (hash c0). seq_cache_hashcmp co kB (fst (snd e))"
      "\<forall>e\<in>set (hash c0). seq_cache_hashcmp co kC (fst (snd e))"
    and pair: "seq_cache_hashcmp co kA kB" "seq_cache_hashcmp co kA kC" "seq_cache_hashcmp co kB kC"
  shows "\<exists>sc3 c3 sc4 c4.
      put_ex_list sc0 [(a, kA, iA), (b, kB, iB), (c, kC, iC)] = Inr sc3 \<and> ed_cache sc3 = Some c3 \<and>
      chain_of_three (hash c3) a b c \<and> last_key c3 = None \<and>
      seq_cache_recycle_linked co sc3 (Some b) = Inr sc4 \<and> ed_cache sc4 = Some c4 \<and>
      table_ok co (hash c4) \<and> last_key c4 = None \<and>
      map unlinked (hash c4) = map unlinked (filter (\<lambda>e. fst e \<notin> set ts) (hash c0)) \<and>
      a \<notin> fst ` set (hash c4) \<and> b \<notin> fst ` set (hash c4) \<and> c \<notin> fst ` set (hash c4) \<and>
      seq_cache_get_ex co sc4 c4 kA = (sc4, None) \<and> seq_cache_get_ex co sc4 c4 kB = (sc4, None) \<and>
      seq_cache_get_ex co sc4 c4 kC = (sc4, None) \<and>
      list_all (\<lambda>e. links_within (- {a, b, c}) (fst (snd e))) (hash c4)"
proof -
  let ?eA = "(a, kA\<lparr>is_temp_cache := False\<rparr>, \<lparr>ibuf = Some iA\<rparr>)"
  let ?eB = "(b, kB\<lparr>is_temp_cache := False\<rparr>, \<lparr>ibuf = Some iB\<rparr>)"
  let ?eC = "(c, kC\<lparr>is_temp_cache := False\<rparr>, \<lparr>ibuf = Some iC\<rparr>)"
  from put_three_chain [OF c0 ok ct ad af pop perm nf self diff pair, of iA iB iC]
  obtain sc3 c3 kb where r: "put_ex_list sc0 [(a, kA, iA), (b, kB, iB), (c, kC, iC)] = Inr sc3"
    "ed_cache sc3 = Some c3" "table_ok co (hash c3)"
    "last_key c3 = (if type kC = SEQ_CACHE_STORE_FINAL_OUT then None else Some c)"
    "map unlinked (hash c3) = map unlinked (hash c0) @ [unlinked ?eA, unlinked ?eB, unlinked ?eC]"
    "chain_of_three (hash c3) a b c"
    "key_lookup (hash c3) b = Some kb" "link_next kb = Some c"
    "prev_chain (key_lookup (hash c3)) (b # a # ts) (Some b)"
    "next_chain (key_lookup (hash c3)) [c] (Some c)" "distinct (c # b # a # ts)"
    by blast
  from r(4) fin have lk: "last_key c3 = None" by simp
  from r(10,8) have ncc: "next_chain (key_lookup (hash c3)) [c] (link_next kb)" by simp
  from r(11) have d3': "distinct ((b # a # ts) @ [c])" by auto
  from lk have nl: "\<forall>x\<in>set ((b # a # ts) @ [c]). last_key c3 \<noteq> Some x" by simp
  from recycle_linked_chain [OF r(2,3,7,9) ncc d3' nl]
  obtain sc4 c4 where r4: "seq_cache_recycle_linked co sc3 (Some b) = Inr sc4" "ed_cache sc4 = Some c4"
    "table_ok co (hash c4)" "last_key c4 = last_key c3"
    "map unlinked (hash c4) = map unlinked (filter (\<lambda>e. fst e \<notin> set ((b # a # ts) @ [c])) (hash c3))"
    by blast
  have "map unlinked (hash c4) = filter (\<lambda>e. fst e \<notin> set ((b # a # ts) @ [c])) (map unlinked (hash c3))"
    using r4(5) map_unlinked_filter [of "\<lambda>x. x \<notin> set ((b # a # ts) @ [c])" "hash c3"] by simp
  also have "\<dots> = filter (\<lambda>e. fst e \<notin> set ((b # a # ts) @ [c])) (map unlinked (hash c0))"
    by (simp add: r(5) unlinked_def)
  also have "\<dots> = filter (\<lambda>e. fst e \<notin> set ts) (map unlinked (hash c0))"
  proof (rule filter_cong [OF refl])
    fix e assume "e \<in> set (map unlinked (hash c0))"
    then obtain e0 where "e0 \<in> set (hash c0)" "e = unlinked e0" by auto
    with af have "fst e \<noteq> a" "fst e \<noteq> b" "fst e \<noteq> c" by auto
    then show "(fst e \<notin> set ((b # a # ts) @ [c])) = (fst e \<notin> set ts)" by simp
  qed
  also have "\<dots> = map unlinked (filter (\<lambda>e. fst e \<notin> set ts) (hash c0))"
    using map_unlinked_filter [of "\<lambda>x. x \<notin> set ts" "hash c0"] by simp
  finally have u4: "map unlinked (hash c4) = map unlinked (filter (\<lambda>e. fst e \<notin> set ts) (hash c0))" .
  have sub4: "set (map unlinked (hash c4)) \<subseteq> set (map unlinked (hash c0))"
    unfolding u4 by auto
  have f4: "a \<notin> fst ` set (hash c4)" "b \<notin> fst ` set (hash c4)" "c \<notin> fst ` set (hash c4)"
    by (rule fresh_transfer [OF sub4 af(1)], rule fresh_transfer [OF sub4 af(2)],
        rule fresh_transfer [OF sub4 af(3)])
  have g: "\<And>k. \<forall>e\<in>set (hash c0). seq_cache_hashcmp co k (fst (snd e)) \<Longrightarrow>
      seq_cache_get_ex co sc4 c4 k = (sc4, None)"
  proof -
    fix k assume "\<forall>e\<in>set (hash c0). seq_cache_hashcmp co k (fst (snd e))"
    from lookup_entry_None [OF diff_transfer [OF sub4 this]]
    show "seq_cache_get_ex co sc4 c4 k = (sc4, None)"
      by (simp add: seq_cache_get_ex_def BLI_ghash_lookup_def)
  qed
  have lw: "list_all (\<lambda>e. links_within (- {a, b, c}) (fst (snd e))) (hash c4)"
    unfolding list_all_iff
  proof
    fix e assume "e \<in> set (hash c4)"
    from table_ok_links [OF r4(3) this] f4
    show "links_within (- {a, b, c}) (fst (snd e))"
      unfolding links_within_def by auto
  qed
  from r4(4) lk have lk4: "last_key c4 = None" by simp
  from r(1,2,6) lk r4(1,2,3) lk4 u4 f4 g [OF diff(1)] g [OF diff(2)] g [OF diff(3)] lw
  show ?thesis by blast
qed

text \<open>The table with the two final-output entries at 100 and 101 and a null chain tail,
  and three Preprocessed keys at the frames 5, 6 and 7.\<close>

lemma ex_cache_5_15_table_ok: "table_ok ex_collab (hash ex_cache_5_15)"
proof -
  have "chain_ok_map (key_lookup (hash ex_cache_5_15))"
    by (rule chain_ok_no_links) (simp add: ex_cache_5_15_def ex_key_def)
  then show ?thesis
    by (simp add: table_ok_def ex_cache_5_15_def ex_key_def ex_context_def ex_collab_def
        seq_cache_hashcmp_def seq_cmp_render_data_def f32_eval)
qed

lemma ex_pkey_fields:
  "strip (ex_pkey tf ty) = 7" "context' (ex_pkey tf ty) = ex_context" "type (ex_pkey tf ty) = ty"
  "frame_index (ex_pkey tf 2) = f32_sub tf 0"
  by (simp_all add: ex_eval)

theorem recycle_linked_chain_tail_assert_witness:
  "\<exists>sc3 c3.
      put_ex_list (ex_scene ex_cache_5_15)
        [(102, ex_pkey 0x40A00000 2, 52), (103, ex_pkey 0x40C00000 2, 53), (104, ex_pkey 0x40E00000 2, 54)] =
        Inr sc3 \<and> ed_cache sc3 = Some c3 \<and>
      chain_of_three (hash c3) 102 103 104 \<and> last_key c3 = Some 104 \<and>
      seq_cache_recycle_linked ex_collab sc3 (Some 103) = Inl AssertFailed"
proof -
  have c0: "ed_cache (ex_scene ex_cache_5_15) = Some ex_cache_5_15" by (simp add: ex_scene_def)
  have ct: "chain_tail_ok (hash ex_cache_5_15) [] (last_key ex_cache_5_15)"
    by (simp add: chain_tail_ok_def ex_cache_5_15_def)
  have af: "102 \<notin> fst ` set (hash ex_cache_5_15)" "103 \<notin> fst ` set (hash ex_cache_5_15)"
    "104 \<notin> fst ` set (hash ex_cache_5_15)"
    by (simp_all add: ex_cache_5_15_def)
  have perm: "get_stored_types_flag (ex_scene ex_cache_5_15) (ex_pkey tf 2) AND type (ex_pkey tf 2) \<noteq> 0" for tf
    by (simp add: get_stored_types_flag_def ex_pkey_fields ex_scene_def ex_strip_def SEQ_CACHE_OVERRIDE_def
        SEQ_CACHE_STORE_FINAL_OUT_def)
  have nf: "type (ex_pkey tf 2) \<noteq> SEQ_CACHE_STORE_FINAL_OUT" for tf
    by (simp add: ex_pkey_fields SEQ_CACHE_STORE_FINAL_OUT_def)
  have self: "\<not> seq_cache_hashcmp ex_collab (ex_pkey 0x40A00000 2) (ex_pkey 0x40A00000 2)"
    "\<not> seq_cache_hashcmp ex_collab (ex_pkey 0x40C00000 2) (ex_pkey 0x40C00000 2)"
    "\<not> seq_cache_hashcmp ex_collab (ex_pkey 0x40E00000 2) (ex_pkey 0x40E00000 2)"
    by (simp_all add: seq_cache_hashcmp_def seq_cmp_render_data_def ex_pkey_fields ex_context_def f32_eval)
  have diff: "\<forall>e\<in>set (hash ex_cache_5_15). seq_cache_hashcmp ex_collab (ex_pkey tf 2) (fst (snd e))" for tf
    by (simp add: seq_cache_hashcmp_def ex_pkey_fields ex_cache_5_15_def ex_key_def)
  have pair: "seq_cache_hashcmp ex_collab (ex_pkey 0x40A00000 2) (ex_pkey 0x40C00000 2)"
    "seq_cache_hashcmp ex_collab (ex_pkey 0x40A00000 2) (ex_pkey 0x40E00000 2)"
    "seq_cache_hashcmp ex_collab (ex_pkey 0x40C00000 2) (ex_pkey 0x40E00000 2)"
    by (simp_all add: seq_cache_hashcmp_def seq_cmp_render_data_def ex_pkey_fields ex_context_def f32_eval)
  have pop: "populated (ex_pkey tf 2)" for tf by (simp add: ex_pkey_def)
  from recycle_linked_chain_tail_assert [OF c0 ex_cache_5_15_table_ok ct _ af pop pop pop perm perm perm
      nf nf nf self diff diff diff pair, of 52 53 54]
  show ?thesis by simp
qed

subsection \<open>A full cache with nothing to recycle\<close>

text \<open>The memory in use (2 MiB) is above the limit (1 MiB).\<close>

definition ex_full_collab :: Collab where
  "ex_full_collab = ex_collab\<lparr>MEM_get_memory_in_use := (\<lambda>sc. 2 * 1024 * 1024)\<rparr>"

text \<open>
  C8 fails when the table has no candidate at all: with the cache full and the table
  empty, \<open>seq_cache_get_item_for_removal\<close> calls \<open>seq_cache_choose_key\<close> with two null
  pointers, which reads the frame of \<^verbatim>\<open>lkey\<close> before its tests \<^verbatim>\<open>if (lkey)\<close>; so
  \<open>seq_cache_put_if_possible\<close> does not return false but dereferences a null pointer.
\<close>

theorem put_if_possible_no_candidate:
  "seq_cache_is_full ex_full_collab ex_empty_scene \<and>
   cache_hash ex_empty_scene = [] \<and>
   seq_cache_get_item_for_removal ex_full_collab ex_empty_scene = Some (Inl NullDeref) \<and>
   seq_cache_put_if_possible ex_full_collab ex_empty_scene 100 ex_context (Some 7) 0x40A00000 8 (Some 50) =
     Some (Inl NullDeref)"
  by (simp add: seq_cache_put_if_possible_def seq_cache_recycle_item_def recycle_item_loop.simps
      seq_cache_get_item_for_removal_def removal_scan.simps seq_cache_choose_key_def key_deref_def
      seq_cache_is_full_def seq_cache_get_from_scene_def ex_full_collab_def ex_collab_def
      ex_empty_scene_def ex_scene_def ex_context_def cache_hash_def)

text \<open>Two Preprocessed and Composite entries at frame 15, linked in one chain that ends
  at the chain tail; the prefetch job runs over the frames 10 to 20.\<close>

definition ex_blocked_cache :: SeqCache where
  "ex_blocked_cache =
     \<lparr>hash = [(100, (ex_key 0x41700000 2)\<lparr>link_next := Some 101\<rparr>, ex_item 50),
              (101, (ex_key 0x41700000 4)\<lparr>link_prev := Some 100\<rparr>, ex_item 51)],
      last_key = Some 101\<rparr>"

text \<open>The steps of the scan and of the walks that mark a chain temporary.\<close>

lemma removal_scan_Nil: "removal_scan co sc [] lkey rkey = Some (Inr (sc, lkey, rkey))"
  by (subst removal_scan.simps) simp

lemma removal_scan_skip:
  "ibuf (snd (snd e)) = Some i \<Longrightarrow> is_temp_cache (fst (snd e)) \<or> link_next (fst (snd e)) = Some n \<Longrightarrow>
   removal_scan co sc (e # es) lkey rkey = removal_scan co sc es lkey rkey"
  by (subst removal_scan.simps) (auto simp: Let_def)

lemma removal_scan_candidate:
  "ibuf (snd (snd e)) = Some i \<Longrightarrow> \<not> is_temp_cache (fst (snd e)) \<Longrightarrow> link_next (fst (snd e)) = None \<Longrightarrow>
   ed_cache sc = Some cache \<Longrightarrow> scan_candidate sc cache (fst e) (fst (snd e)) lkey rkey = Inr lr \<Longrightarrow>
   removal_scan co sc (e # es) lkey rkey = removal_scan co sc es (fst lr) (snd lr)"
  by (subst removal_scan.simps) (auto simp: Let_def)

lemma set_temp_cache_prev_None: "set_temp_cache_prev cache None = Some (Inr cache)"
  by (subst set_temp_cache_prev.simps) simp

lemma set_temp_cache_prev_Some:
  "key_deref cache (Some b) = Inr key \<Longrightarrow>
   set_temp_cache_prev cache (Some b) =
     set_temp_cache_prev (key_update cache b (\<lambda>k. k\<lparr>is_temp_cache := True\<rparr>)) (link_prev key)"
  by (subst set_temp_cache_prev.simps) simp

lemma set_temp_cache_next_None: "set_temp_cache_next cache None = Some (Inr cache)"
  by (subst set_temp_cache_next.simps) simp

lemma frame_get_links [simp]:
  "seq_cache_key_timeline_frame_get sc (k\<lparr>link_prev := p\<rparr>) = seq_cache_key_timeline_frame_get sc k"
  "seq_cache_key_timeline_frame_get sc (k\<lparr>link_next := n\<rparr>) = seq_cache_key_timeline_frame_get sc k"
  by (simp_all add: seq_cache_key_timeline_frame_get_def)

text \<open>
  With the cache full and the only candidate inside the prefetch window,
  \<open>seq_cache_choose_key\<close> returns no key, \<open>seq_cache_put_if_possible\<close> returns false and
  inserts nothing, both entries of the chain that ends at the chain tail are temporary
  afterwards, and the chain tail is null.
\<close>

lemma put_if_possible_prefetch_blocked:
  "seq_cache_put_if_possible ex_full_collab (ex_scene ex_blocked_cache) 102 ex_context (Some 7)
       0x41800000 8 (Some 52) =
     Some (Inr (ex_scene
       \<lparr>hash = [(100, (ex_key 0x41700000 2)\<lparr>link_next := Some 101, is_temp_cache := True\<rparr>, ex_item 50),
                (101, (ex_key 0x41700000 4)\<lparr>link_prev := Some 100, is_temp_cache := True\<rparr>, ex_item 51)],
        last_key = None\<rparr>, False))"
proof -
  let ?sc = "ex_scene ex_blocked_cache"
  have c: "ed_cache ?sc = Some ex_blocked_cache" by (simp add: ex_scene_def)
  have full: "seq_cache_is_full ex_full_collab ?sc"
    by (simp add: seq_cache_is_full_def ex_full_collab_def ex_collab_def)
  have s1: "scan_candidate ?sc ex_blocked_cache 101 ((ex_key 0x41700000 4)\<lparr>link_prev := Some 100\<rparr>) None None =
      Inr (Some 101, Some 101)"
    by (simp add: scan_candidate_def)
  have scan: "removal_scan ex_full_collab ?sc (hash ex_blocked_cache) None None =
      Some (Inr (?sc, Some 101, Some 101))"
  proof -
    have "removal_scan ex_full_collab ?sc (hash ex_blocked_cache) None None =
        removal_scan ex_full_collab ?sc
          [(101, (ex_key 0x41700000 4)\<lparr>link_prev := Some 100\<rparr>, ex_item 51)] None None"
      unfolding ex_blocked_cache_def
      by (simp add: removal_scan_skip [where i = 50 and n = 101] ex_item_def)
    also have "\<dots> = removal_scan ex_full_collab ?sc [] (Some 101) (Some 101)"
      using removal_scan_candidate [where e = "(101, (ex_key 0x41700000 4)\<lparr>link_prev := Some 100\<rparr>, ex_item 51)"
          and i = 51 and sc = ?sc and cache = ex_blocked_cache and lr = "(Some 101, Some 101)"
          and lkey = None and rkey = None and co = ex_full_collab and es = "[]"] s1 c
      by (simp add: ex_item_def ex_key_def)
    finally show ?thesis by (simp add: removal_scan_Nil)
  qed
  have fl: "ed_cache_flag (ex_scene c) = 0x40F" for c by (simp add: ex_scene_def)
  have ch: "seq_cache_choose_key ex_full_collab ?sc ex_blocked_cache (Some 101) (Some 101) = Inr None"
    by (simp add: seq_cache_choose_key_def key_deref_def ex_blocked_cache_def ex_frame_15 fl
        ex_full_collab_def ex_collab_def SEQ_CACHE_PREFETCH_ENABLE_def)
  have gi: "seq_cache_get_item_for_removal ex_full_collab ?sc = Some (Inr (?sc, None))"
    by (simp add: seq_cache_get_item_for_removal_def seq_cache_get_from_scene_def c scan ch)
  have ri: "seq_cache_recycle_item ex_full_collab ?sc = Some (Inr (?sc, False))"
    by (simp add: seq_cache_recycle_item_def seq_cache_get_from_scene_def c
        recycle_item_loop.simps [of ex_full_collab ?sc] full gi)
  have st: "seq_cache_set_temp_cache_linked ?sc (Some 101) =
      Some (Inr (ex_scene
       \<lparr>hash = [(100, (ex_key 0x41700000 2)\<lparr>link_next := Some 101, is_temp_cache := True\<rparr>, ex_item 50),
                (101, (ex_key 0x41700000 4)\<lparr>link_prev := Some 100, is_temp_cache := True\<rparr>, ex_item 51)],
        last_key = Some 101\<rparr>))"
    by (simp add: seq_cache_set_temp_cache_linked_def seq_cache_get_from_scene_def c
        set_temp_cache_prev_Some set_temp_cache_prev_None set_temp_cache_next_None
        key_deref_def key_update_def ex_blocked_cache_def ex_key_def ex_scene_def)
  have lk: "last_key ex_blocked_cache = Some 101" by (simp add: ex_blocked_cache_def)
  show ?thesis
    by (simp add: seq_cache_put_if_possible_def ex_context_def ri c lk st) (simp add: ex_scene_def)
qed

end
